theory Spec2Isabelle
  imports Complex_Main "HOL-Library.Sublist" "HOL-Library.Product_Lexorder"
begin

section \<open>Python strings\<close>

text \<open>
  A Python \<open>str\<close> is a sequence of Unicode code points, so a string is modelled as a
  list of code points (natural numbers); \<open>len\<close> is \<open>length\<close>. ASCII literals of the
  source are written through \<open>ascii\<close>, every other literal as its code points.
\<close>

type_synonym ustr = "nat list"

definition ascii :: "string \<Rightarrow> ustr" where
  "ascii s = map of_char s"

text \<open>\<open>sep.join(parts)\<close>.\<close>

fun join :: "ustr \<Rightarrow> ustr list \<Rightarrow> ustr" where
  "join sep [] = []"
| "join sep [x] = x"
| "join sep (x # y # ys) = x @ sep @ join sep (y # ys)"

text \<open>
  \<open>str.isspace\<close> on one code point: the code points CPython 3 treats as whitespace.
  \<open>str.strip()\<close> removes the leading and the trailing whitespace.
\<close>

definition isspace :: "nat \<Rightarrow> bool" where
  "isspace c \<longleftrightarrow>
     (0x9 \<le> c \<and> c \<le> 0xD) \<or> (0x1C \<le> c \<and> c \<le> 0x20) \<or> c = 0x85 \<or> c = 0xA0 \<or>
     c = 0x1680 \<or> (0x2000 \<le> c \<and> c \<le> 0x200A) \<or> c = 0x2028 \<or> c = 0x2029 \<or>
     c = 0x202F \<or> c = 0x205F \<or> c = 0x3000"

definition strip :: "ustr \<Rightarrow> ustr" where
  "strip s = rev (dropWhile isspace (rev (dropWhile isspace s)))"

text \<open>
  \<open>sub in s\<close> on strings is the contiguous-substring test, \<^const>\<open>sublist\<close>.
  \<open>str.lower()\<close> depends on the Unicode character database, which is no part of the
  repository: every function that calls it takes it as the parameter \<open>lower\<close>, and
  the theorems hold for every such function.
\<close>

text \<open>
  \<open>lower_ascii\<close> is \<open>str.lower\<close> on strings of ASCII and unicase characters (it maps
  \<open>A\<close>..\<open>Z\<close> to \<open>a\<close>..\<open>z\<close>); it instantiates \<open>lower\<close> in the concrete examples.
\<close>

definition lower_ascii :: "ustr \<Rightarrow> ustr" where
  "lower_ascii s = map (\<lambda>c. if 0x41 \<le> c \<and> c \<le> 0x5A then c + 0x20 else c) s"

section \<open>planner.py\<close>

text \<open>
  Field names of the four dataclasses carry a prefix (\<open>tp_\<close>, \<open>rr_\<close>, \<open>sr_\<close>,
  \<open>vr_\<close>), since several of them share \<open>task_type\<close>, \<open>query\<close>, \<open>metadata\<close> and
  \<open>answer\<close>. A \<open>Dict[str, str]\<close> is a map from strings to strings.
\<close>

record TaskPlan =
  tp_task_type :: ustr
  tp_tool_name :: ustr
  tp_query :: ustr
  tp_metadata :: "ustr \<rightharpoonup> ustr"

record rule =
  rule_task_type :: ustr
  rule_tool :: ustr
  rule_keywords :: "ustr list"

definition TASK_RULES :: "rule list" where
  "TASK_RULES =
    [\<lparr>rule_task_type = ascii ''anomaly_diagnosis'', rule_tool = ascii ''anomaly_diagnosis'',
      rule_keywords = [[0x544A, 0x8B66], [0x62A5, 0x8B66], [0x5F02, 0x5E38], [0x8BCA, 0x65AD]]\<rparr>,
     \<lparr>rule_task_type = ascii ''sop_lookup'', rule_tool = ascii ''sop_lookup'',
      rule_keywords = [ascii ''sop'', [0x4FDD, 0x5168], [0x64CD, 0x4F5C, 0x89C4, 0x7A0B],
        [0x6807, 0x51C6, 0x4F5C, 0x4E1A], [0x6B65, 0x9AA4], [0x68C0, 0x4FEE]]\<rparr>,
     \<lparr>rule_task_type = ascii ''workorder_recommendation'',
      rule_tool = ascii ''workorder_recommendation'',
      rule_keywords = [ascii ''bom'', [0x5DE5, 0x5355], [0x5907, 0x4EF6], [0x7269, 0x6599],
        [0x66F4, 0x6362], [0x7EF4, 0x4FEE, 0x4EFB, 0x52A1]]\<rparr>]"

text \<open>\<open>Planner._extract_query\<close>.\<close>

definition extract_query :: "ustr \<Rightarrow> ustr" where
  "extract_query request = strip request"

text \<open>
  \<open>Planner._estimate_priority\<close>: the dictionary \<open>markers\<close> is iterated in insertion
  order, so it is an association list; the first marker found in the lowered request
  decides.
\<close>

definition markers :: "(ustr \<times> ustr) list" where
  "markers =
    [([0x7D27, 0x6025], ascii ''high''), ([0x7ACB, 0x5373], ascii ''high''),
     ([0x5C3D, 0x5FEB], ascii ''high''), ([0x5EFA, 0x8BAE], ascii ''standard''),
     ([0x4F18, 0x5316], ascii ''standard'')]"

fun priority_loop :: "(ustr \<times> ustr) list \<Rightarrow> ustr \<Rightarrow> ustr" where
  "priority_loop [] normalized = ascii ''standard''"
| "priority_loop ((marker, level) # rest) normalized =
     (if sublist marker normalized then level else priority_loop rest normalized)"

definition estimate_priority :: "(ustr \<Rightarrow> ustr) \<Rightarrow> ustr \<Rightarrow> ustr" where
  "estimate_priority lower request = priority_loop markers (lower request)"

text \<open>
  \<open>Planner.plan\<close>: the loop over \<open>_TASK_RULES\<close> returns at the first rule with a
  matched keyword; after the loop comes the fallback plan for \<open>default_task\<close>, the
  constructor's argument.
\<close>

fun plan_loop :: "(ustr \<Rightarrow> ustr) \<Rightarrow> ustr \<Rightarrow> ustr \<Rightarrow> ustr \<Rightarrow> rule list \<Rightarrow> TaskPlan" where
  "plan_loop lower default_task request normalized [] =
     \<lparr>tp_task_type = default_task, tp_tool_name = default_task,
      tp_query = extract_query request,
      tp_metadata = [ascii ''matched_keywords'' \<mapsto> [],
                     ascii ''priority'' \<mapsto> estimate_priority lower request,
                     ascii ''reason'' \<mapsto> ascii ''fallback'']\<rparr>"
| "plan_loop lower default_task request normalized (r # rules) =
     (let matched_keywords = filter (\<lambda>kw. sublist (lower kw) normalized) (rule_keywords r)
      in if matched_keywords \<noteq> [] then
           \<lparr>tp_task_type = rule_task_type r, tp_tool_name = rule_tool r,
            tp_query = extract_query request,
            tp_metadata = [ascii ''matched_keywords'' \<mapsto> join (ascii '','') matched_keywords,
                           ascii ''priority'' \<mapsto> estimate_priority lower request]\<rparr>
         else plan_loop lower default_task request normalized rules)"

definition plan :: "(ustr \<Rightarrow> ustr) \<Rightarrow> ustr \<Rightarrow> ustr \<Rightarrow> TaskPlan" where
  "plan lower default_task request =
     plan_loop lower default_task request (lower request) TASK_RULES"

section \<open>difflib.SequenceMatcher\<close>

text \<open>
  Scores are Python floats; they are modelled as exact rational numbers, so
  \<open>2.0 * matches / length\<close> is the rational quotient.
\<close>

text \<open>
  Modelled from the spec: \<open>SequenceMatcher(None, a, b).ratio()\<close> is Python's standard
  library \<open>difflib\<close>, not code under src/. The spec (4.2) describes it as a
  Ratcliff/Obershelp-style matching ratio: recursively find the longest common
  contiguous substring, recurse on the unmatched left and right remainders, sum the
  lengths of the matched segments \<open>M\<close>, and return \<open>2*M / (len(a) + len(b))\<close>. The
  definitions of this section follow that description the way the library carries it
  out with \<open>isjunk = None\<close> and the default \<open>autojunk = True\<close>: \<open>__chain_b\<close>,
  \<open>find_longest_match\<close>, \<open>get_matching_blocks\<close>, \<open>ratio\<close> and
  \<open>_calculate_ratio\<close>.

  \<open>__chain_b\<close>: \<open>b2j\<close> maps an element to the ascending list of its indices in \<open>b\<close>;
  when \<open>b\<close> has 200 elements or more, the elements occurring more than
  \<open>len(b) // 100 + 1\<close> times are popular and are deleted from \<open>b2j\<close>. The lookup
  \<open>b2j.get(elt, [])\<close> is \<open>b2j b elt\<close>.
\<close>

definition popular :: "ustr \<Rightarrow> nat \<Rightarrow> bool" where
  "popular b elt \<longleftrightarrow> length b \<ge> 200 \<and> length (filter (\<lambda>x. x = elt) b) > length b div 100 + 1"

definition b2j :: "ustr \<Rightarrow> nat \<Rightarrow> nat list" where
  "b2j b elt = (if popular b elt then [] else filter (\<lambda>j. b ! j = elt) [0..<length b])"

text \<open>
  The inner loop of \<open>find_longest_match\<close> over the indices \<open>j\<close> of \<open>a[i]\<close> in \<open>b\<close>:
  \<open>continue\<close> below \<open>blo\<close>, \<open>break\<close> from \<open>bhi\<close> on. \<open>j2len.get(j-1, 0)\<close> is 0 for
  \<open>j = 0\<close>, the key \<open>-1\<close> never being stored. The state is \<open>newj2len\<close> and the best
  match \<open>(besti, bestj, bestsize)\<close>. The new \<open>besti = i-k+1\<close> is written
  \<open>i + 1 - k\<close>: \<open>k\<close> is at most \<open>i + 1 - alo\<close> (lemma \<open>j2lenget_bound\<close>), so the
  subtraction on natural numbers is the source's.
\<close>

definition j2lenget :: "(nat \<rightharpoonup> nat) \<Rightarrow> nat \<Rightarrow> nat" where
  "j2lenget j2len j = (if j = 0 then 0 else case j2len (j - 1) of None \<Rightarrow> 0 | Some v \<Rightarrow> v)"

fun inner_loop ::
  "nat \<Rightarrow> nat \<Rightarrow> nat \<Rightarrow> (nat \<rightharpoonup> nat) \<Rightarrow> nat list \<Rightarrow> (nat \<rightharpoonup> nat) \<times> (nat \<times> nat \<times> nat)
     \<Rightarrow> (nat \<rightharpoonup> nat) \<times> (nat \<times> nat \<times> nat)" where
  "inner_loop i blo bhi j2len [] st = st"
| "inner_loop i blo bhi j2len (j # js) (newj2len, (besti, bestj, bestsize)) =
     (if j < blo then inner_loop i blo bhi j2len js (newj2len, (besti, bestj, bestsize))
      else if j \<ge> bhi then (newj2len, (besti, bestj, bestsize))
      else let k = j2lenget j2len j + 1 in
        if k > bestsize
        then inner_loop i blo bhi j2len js (newj2len(j \<mapsto> k), (i + 1 - k, j + 1 - k, k))
        else inner_loop i blo bhi j2len js (newj2len(j \<mapsto> k), (besti, bestj, bestsize)))"

text \<open>The outer loop \<open>for i in range(alo, ahi)\<close>; the state is \<open>j2len\<close> and the best match.\<close>

fun outer_loop ::
  "ustr \<Rightarrow> ustr \<Rightarrow> nat \<Rightarrow> nat \<Rightarrow> nat list \<Rightarrow> (nat \<rightharpoonup> nat) \<times> (nat \<times> nat \<times> nat)
     \<Rightarrow> (nat \<rightharpoonup> nat) \<times> (nat \<times> nat \<times> nat)" where
  "outer_loop a b blo bhi [] st = st"
| "outer_loop a b blo bhi (i # is) (j2len, best) =
     outer_loop a b blo bhi is (inner_loop i blo bhi j2len (b2j b (a ! i)) (Map.empty, best))"

text \<open>
  The two \<open>while\<close> loops that extend the best match by equal elements on each end.
  With \<open>isjunk = None\<close> no element is junk, so the test \<open>not isbjunk(...)\<close> is true and
  the two further loops that absorb matching junk never run.
\<close>

function extend_left :: "ustr \<Rightarrow> ustr \<Rightarrow> nat \<Rightarrow> nat \<Rightarrow> nat \<times> nat \<times> nat \<Rightarrow> nat \<times> nat \<times> nat" where
  "extend_left a b alo blo (besti, bestj, bestsize) =
     (if besti > alo \<and> bestj > blo \<and> a ! (besti - 1) = b ! (bestj - 1)
      then extend_left a b alo blo (besti - 1, bestj - 1, bestsize + 1)
      else (besti, bestj, bestsize))"
  by pat_completeness auto
termination
  by (relation "measure (\<lambda>(a, b, alo, blo, besti, bestj, bestsize). besti)") auto

function extend_right :: "ustr \<Rightarrow> ustr \<Rightarrow> nat \<Rightarrow> nat \<Rightarrow> nat \<times> nat \<times> nat \<Rightarrow> nat \<times> nat \<times> nat" where
  "extend_right a b ahi bhi (besti, bestj, bestsize) =
     (if besti + bestsize < ahi \<and> bestj + bestsize < bhi
         \<and> a ! (besti + bestsize) = b ! (bestj + bestsize)
      then extend_right a b ahi bhi (besti, bestj, bestsize + 1)
      else (besti, bestj, bestsize))"
  by pat_completeness auto
termination
  by (relation "measure (\<lambda>(a, b, ahi, bhi, besti, bestj, bestsize). ahi - (besti + bestsize))") auto

definition find_longest_match :: "ustr \<Rightarrow> ustr \<Rightarrow> nat \<Rightarrow> nat \<Rightarrow> nat \<Rightarrow> nat \<Rightarrow> nat \<times> nat \<times> nat" where
  "find_longest_match a b alo ahi blo bhi =
     extend_right a b ahi bhi
       (extend_left a b alo blo
         (snd (outer_loop a b blo bhi [alo..<ahi] (Map.empty, (alo, blo, 0)))))"

text \<open>
  Bounds of \<open>find_longest_match\<close>, needed for the termination of
  \<open>get_matching_blocks\<close>: the match lies inside the two ranges. \<open>row_inv\<close> bounds
  the entries of \<open>j2len\<close> after the rows below \<open>n\<close>, \<open>best_inv\<close> the best match.
\<close>

definition row_inv :: "nat \<Rightarrow> nat \<Rightarrow> nat \<Rightarrow> nat \<Rightarrow> (nat \<rightharpoonup> nat) \<Rightarrow> bool" where
  "row_inv n alo blo bhi m \<longleftrightarrow> (\<forall>j v. m j = Some v \<longrightarrow> blo \<le> j \<and> j < bhi \<and> v \<le> j + 1 - blo \<and> v \<le> n - alo)"

definition best_inv :: "nat \<Rightarrow> nat \<Rightarrow> nat \<Rightarrow> nat \<Rightarrow> nat \<Rightarrow> nat \<times> nat \<times> nat \<Rightarrow> bool" where
  "best_inv n alo ahi blo bhi best \<longleftrightarrow> (case best of (bi, bj, bs) \<Rightarrow>
      alo \<le> bi \<and> blo \<le> bj \<and> (bs = 0 \<longrightarrow> bi = alo \<and> bj = blo) \<and>
      (bs > 0 \<longrightarrow> bi + bs \<le> n \<and> n \<le> ahi \<and> bj + bs \<le> bhi))"

lemma j2lenget_bound:
  assumes "row_inv i alo blo bhi j2len" "blo \<le> j" "alo \<le> i"
  shows "j2lenget j2len j + 1 \<le> j + 1 - blo \<and> j2lenget j2len j + 1 \<le> i + 1 - alo"
proof (cases "j = 0")
  case True then show ?thesis using assms by (simp add: j2lenget_def)
next
  case False
  show ?thesis
  proof (cases "j2len (j - 1)")
    case None then show ?thesis using assms False by (auto simp: j2lenget_def)
  next
    case (Some v)
    with assms(1) have "blo \<le> j - 1" "v \<le> j - 1 + 1 - blo" "v \<le> i - alo"
      by (auto simp: row_inv_def)
    then show ?thesis using Some False assms(2,3) by (auto simp: j2lenget_def)
  qed
qed

lemma inner_loop_inv:
  assumes "row_inv i alo blo bhi j2len" "alo \<le> i" "i < ahi"
    and "row_inv (i + 1) alo blo bhi m" "best_inv i alo ahi blo bhi best \<or> best_inv (i+1) alo ahi blo bhi best"
    and "inner_loop i blo bhi j2len js (m, best) = (m', best')"
  shows "row_inv (i + 1) alo blo bhi m' \<and> best_inv (i + 1) alo ahi blo bhi best'"
  using assms(4-)
proof (induction js arbitrary: m best)
  case Nil
  then show ?case using assms(2,3) by (auto simp: best_inv_def)
next
  case (Cons j js)
  obtain bi bj bs where best: "best = (bi, bj, bs)" by (cases best)
  show ?case
  proof (cases "j < blo")
    case True
    with Cons best show ?thesis by simp
  next
    case nlo: False
    show ?thesis
    proof (cases "j \<ge> bhi")
      case True
      with Cons.prems nlo best assms(2,3) show ?thesis by (auto simp: best_inv_def)
    next
      case False
      let ?k = "j2lenget j2len j + 1"
      have kb: "?k \<le> j + 1 - blo" "?k \<le> i + 1 - alo"
        using j2lenget_bound[OF assms(1) _ assms(2), of j] nlo by auto
      have m': "row_inv (i + 1) alo blo bhi (m(j \<mapsto> ?k))"
        using Cons.prems(1) kb nlo False by (auto simp: row_inv_def)
      show ?thesis
      proof (cases "?k > bs")
        case True
        have b': "best_inv (i + 1) alo ahi blo bhi (i + 1 - ?k, j + 1 - ?k, ?k)"
          using kb nlo False assms(2,3) by (auto simp: best_inv_def)
        have "inner_loop i blo bhi j2len js (m(j \<mapsto> ?k), (i + 1 - ?k, j + 1 - ?k, ?k)) = (m', best')"
          using Cons.prems(3) best nlo False True by (simp add: Let_def del: fun_upd_apply)
        from Cons.IH[OF m' _ this] b' show ?thesis by blast
      next
        case nk: False
        have "inner_loop i blo bhi j2len js (m(j \<mapsto> ?k), best) = (m', best')"
          using Cons.prems(3) best nlo False nk by (simp add: Let_def del: fun_upd_apply)
        from Cons.IH[OF m' Cons.prems(2) this] show ?thesis .
      qed
    qed
  qed
qed

lemma outer_loop_inv:
  assumes "row_inv lo alo blo bhi j2len" "alo \<le> lo" "best_inv lo alo ahi blo bhi best"
    and "outer_loop a b blo bhi [lo..<ahi] (j2len, best) = (m', best')"
  shows "best_inv (max lo ahi) alo ahi blo bhi best'"
  using assms
proof (induction "ahi - lo" arbitrary: lo j2len best)
  case 0
  then show ?case by (simp add: max_def)
next
  case (Suc n)
  then have lt: "lo < ahi" by simp
  obtain m1 b1 where il: "inner_loop lo blo bhi j2len (b2j b (a ! lo)) (Map.empty, best) = (m1, b1)"
    by (cases "inner_loop lo blo bhi j2len (b2j b (a ! lo)) (Map.empty, best)")
  have e: "row_inv (lo + 1) alo blo bhi Map.empty" by (simp add: row_inv_def)
  from inner_loop_inv[OF Suc.prems(1) Suc.prems(2) lt e _ il] Suc.prems(3)
  have i1: "row_inv (lo + 1) alo blo bhi m1" "best_inv (lo + 1) alo ahi blo bhi b1" by auto
  have "outer_loop a b blo bhi [lo + 1..<ahi] (m1, b1) = (m', best')"
    using Suc.prems(4) lt il by (simp add: upt_conv_Cons)
  from Suc.hyps(1)[OF _ i1(1) _ i1(2) this] Suc.hyps(2) Suc.prems(2) lt
  show ?case by (simp add: max_def)
qed


lemma extend_left_inv:
  "extend_left a b alo blo (bi, bj, bs) = (i, j, k) \<Longrightarrow> alo \<le> bi \<Longrightarrow> blo \<le> bj \<Longrightarrow>
     alo \<le> i \<and> blo \<le> j \<and> i + k = bi + bs \<and> j + k = bj + bs \<and> bs \<le> k"
proof (induction a b alo blo "(bi, bj, bs)" arbitrary: bi bj bs rule: extend_left.induct)
  case (1 a b alo blo besti bestj bestsize)
  show ?case
  proof (cases "besti > alo \<and> bestj > blo \<and> a ! (besti - 1) = b ! (bestj - 1)")
    case True
    then have "extend_left a b alo blo (besti - 1, bestj - 1, bestsize + 1) = (i, j, k)"
      using "1.prems"(1) by simp
    moreover have "alo \<le> besti - 1" "blo \<le> bestj - 1" using True by auto
    ultimately have "alo \<le> i \<and> blo \<le> j \<and> i + k = besti - 1 + (bestsize + 1)
        \<and> j + k = bestj - 1 + (bestsize + 1) \<and> bestsize + 1 \<le> k"
      by (rule "1.hyps"[OF True])
    with True show ?thesis by auto
  next
    case False
    then show ?thesis using "1.prems" by auto
  qed
qed

lemma extend_right_inv:
  "extend_right a b ahi bhi (bi, bj, bs) = (i, j, k) \<Longrightarrow>
     i = bi \<and> j = bj \<and> bs \<le> k \<and> (bs < k \<longrightarrow> i + k \<le> ahi \<and> j + k \<le> bhi)"
proof (induction a b ahi bhi "(bi, bj, bs)" arbitrary: bi bj bs rule: extend_right.induct)
  case (1 a b ahi bhi besti bestj bestsize)
  show ?case
  proof (cases "besti + bestsize < ahi \<and> bestj + bestsize < bhi
         \<and> a ! (besti + bestsize) = b ! (bestj + bestsize)")
    case True
    then have "extend_right a b ahi bhi (besti, bestj, bestsize + 1) = (i, j, k)"
      using "1.prems"(1) by simp
    from "1.hyps"[OF True this] True show ?thesis by auto
  next
    case False
    then show ?thesis using "1.prems" by auto
  qed
qed

lemma find_longest_match_bounds:
  assumes "find_longest_match a b alo ahi blo bhi = (i, j, k)"
  shows "alo \<le> i \<and> blo \<le> j \<and> (k > 0 \<longrightarrow> i + k \<le> ahi \<and> j + k \<le> bhi)"
proof -
  obtain m0 bi bj bs where o: "outer_loop a b blo bhi [alo..<ahi] (Map.empty, (alo, blo, 0)) = (m0, (bi, bj, bs))"
    by (metis surj_pair)
  have "best_inv (max alo ahi) alo ahi blo bhi (bi, bj, bs)"
    by (rule outer_loop_inv[OF _ _ _ o]) (simp_all add: row_inv_def best_inv_def)
  then have b: "alo \<le> bi" "blo \<le> bj" "bs > 0 \<longrightarrow> bi + bs \<le> ahi \<and> bj + bs \<le> bhi"
    "bs = 0 \<longrightarrow> bi = alo \<and> bj = blo"
    by (auto simp: best_inv_def)
  obtain li lj lk where l: "extend_left a b alo blo (bi, bj, bs) = (li, lj, lk)"
    by (metis surj_pair)
  from extend_left_inv[OF l b(1,2)]
  have lb: "alo \<le> li" "blo \<le> lj" "li + lk = bi + bs" "lj + lk = bj + bs" "bs \<le> lk" by auto
  have r: "extend_right a b ahi bhi (li, lj, lk) = (i, j, k)"
    using assms o l by (simp add: find_longest_match_def)
  from extend_right_inv[OF r]
  have rb: "i = li" "j = lj" "lk \<le> k" "lk < k \<longrightarrow> i + k \<le> ahi \<and> j + k \<le> bhi" by auto
  show ?thesis
  proof (cases "lk < k")
    case True
    with rb lb show ?thesis by simp
  next
    case False
    with rb have "k = lk" by simp
    show ?thesis
    proof (cases "bs > 0")
      case True
      with b lb rb \<open>k = lk\<close> show ?thesis by simp
    next
      case False
      then have "bs = 0" by simp
      with b l have "lk = 0" by simp
      with rb lb \<open>k = lk\<close> show ?thesis by simp
    qed
  qed
qed


text \<open>
  \<open>get_matching_blocks\<close>: the list \<open>queue\<close> is used as a stack (\<open>append\<close>,
  \<open>pop\<close>); the model keeps its top at the head. The blocks found are sorted (tuples
  compare lexicographically), adjacent blocks are collapsed, and the dummy block
  \<open>(la, lb, 0)\<close> is appended.
\<close>

function blocks_loop ::
  "ustr \<Rightarrow> ustr \<Rightarrow> (nat \<times> nat \<times> nat \<times> nat) list \<Rightarrow> (nat \<times> nat \<times> nat) list \<Rightarrow> (nat \<times> nat \<times> nat) list" where
  "blocks_loop a b [] matching_blocks = matching_blocks"
| "blocks_loop a b ((alo, ahi, blo, bhi) # queue) matching_blocks =
     (case find_longest_match a b alo ahi blo bhi of (i, j, k) \<Rightarrow>
        if k \<noteq> 0 then
          blocks_loop a b
            ((if i + k < ahi \<and> j + k < bhi then [(i + k, ahi, j + k, bhi)] else []) @
             (if alo < i \<and> blo < j then [(alo, i, blo, j)] else []) @ queue)
            (matching_blocks @ [(i, j, k)])
        else blocks_loop a b queue matching_blocks)"
  by pat_completeness auto
termination
proof (relation "measure (\<lambda>(a, b, queue, mb). sum_list (map (\<lambda>(alo, ahi, blo, bhi). 2 * (ahi - alo) + 1) queue))", goal_cases)
  case 1
  then show ?case by simp
next
  case (2 a b alo ahi blo bhi queue matching_blocks i jk j k)
  with find_longest_match_bounds[of a b alo ahi blo bhi i j k]
  show ?case by auto
next
  case (3 a b alo ahi blo bhi queue matching_blocks i jk j k)
  then show ?case by simp
qed

fun collapse :: "(nat \<times> nat \<times> nat) list \<Rightarrow> nat \<times> nat \<times> nat \<Rightarrow> (nat \<times> nat \<times> nat) list \<Rightarrow> (nat \<times> nat \<times> nat) list" where
  "collapse [] (i1, j1, k1) non_adjacent =
     (if k1 \<noteq> 0 then non_adjacent @ [(i1, j1, k1)] else non_adjacent)"
| "collapse ((i2, j2, k2) # rest) (i1, j1, k1) non_adjacent =
     (if i1 + k1 = i2 \<and> j1 + k1 = j2 then collapse rest (i1, j1, k1 + k2) non_adjacent
      else collapse rest (i2, j2, k2)
             (if k1 \<noteq> 0 then non_adjacent @ [(i1, j1, k1)] else non_adjacent))"

definition get_matching_blocks :: "ustr \<Rightarrow> ustr \<Rightarrow> (nat \<times> nat \<times> nat) list" where
  "get_matching_blocks a b =
     collapse (sort (blocks_loop a b [(0, length a, 0, length b)] [])) (0, 0, 0) []
       @ [(length a, length b, 0)]"

text \<open>
  Modelled from the spec: \<open>_calculate_ratio\<close> and \<open>ratio\<close> of \<open>difflib\<close>, the
  \<open>2*M / (len(a) + len(b))\<close> of the spec; for two empty sequences the library
  returns 1.
\<close>

definition calculate_ratio :: "nat \<Rightarrow> nat \<Rightarrow> rat" where
  "calculate_ratio matches len = (if len \<noteq> 0 then 2 * of_nat matches / of_nat len else 1)"

definition ratio :: "ustr \<Rightarrow> ustr \<Rightarrow> rat" where
  "ratio a b =
     calculate_ratio (sum_list (map (\<lambda>(i, j, k). k) (get_matching_blocks a b)))
       (length a + length b)"

section \<open>tools.py\<close>

text \<open>
  A parameter \<open>plan\<close> of the source is \<open>tplan\<close> here, \<open>plan\<close> being the
  planner's function. A corpus record is a \<open>Dict[str, str]\<close>. Reading a missing key
  raises \<open>KeyError\<close>; a function that can raise returns \<open>error + 'a\<close>, and
  \<open>and_then\<close> passes the first error on.
\<close>

datatype error = KeyError ustr

type_synonym entry = "ustr \<rightharpoonup> ustr"

definition getitem :: "entry \<Rightarrow> ustr \<Rightarrow> error + ustr" where
  "getitem e key = (case e key of None \<Rightarrow> Inl (KeyError key) | Some v \<Rightarrow> Inr v)"

definition and_then :: "error + 'a \<Rightarrow> ('a \<Rightarrow> error + 'b) \<Rightarrow> error + 'b" where
  "and_then x f = (case x of Inl e \<Rightarrow> Inl e | Inr v \<Rightarrow> f v)"

record RetrievalResult =
  rr_task_type :: ustr
  rr_query :: ustr
  rr_context :: ustr
  rr_source :: ustr
  rr_score :: rat
  rr_metadata :: "ustr \<rightharpoonup> ustr"

text \<open>
  The state of a \<open>ToolExecutor\<close> after construction: the three corpora, in load
  order. Reading them from files is outside the model.
\<close>

record ToolExecutor =
  anomaly_entries :: "entry list"
  sop_entries :: "entry list"
  bom_entries :: "entry list"

text \<open>\<open>ToolExecutor._score\<close>.\<close>

definition score :: "(ustr \<Rightarrow> ustr) \<Rightarrow> ustr \<Rightarrow> ustr \<Rightarrow> rat" where
  "score lower query text =
     (if query = [] \<or> text = [] then 0 else ratio (lower query) (lower text))"

text \<open>
  \<open>ToolExecutor._best_match\<close>: \<open>field_text\<close> is the text joined from the fields
  present in the entry (the argument \<open>fields\<close> is \<open>field_names\<close> here), the loop
  carries \<open>(best_entry, best_score)\<close>.
\<close>

definition field_text :: "entry \<Rightarrow> ustr list \<Rightarrow> ustr" where
  "field_text e field_names = join (ascii '' '') (map (\<lambda>f. the (e f)) (filter (\<lambda>f. e f \<noteq> None) field_names))"

fun best_match_loop ::
  "(ustr \<Rightarrow> ustr) \<Rightarrow> ustr \<Rightarrow> ustr list \<Rightarrow> entry list \<Rightarrow> entry option \<times> rat \<Rightarrow> entry option \<times> rat" where
  "best_match_loop lower query field_names [] (best_entry, best_score) = (best_entry, best_score)"
| "best_match_loop lower query field_names (e # entries) (best_entry, best_score) =
     (let text = field_text e field_names;
          sc = score lower query text
      in if sc > best_score then best_match_loop lower query field_names entries (Some e, sc)
         else best_match_loop lower query field_names entries (best_entry, best_score))"

definition best_match ::
  "(ustr \<Rightarrow> ustr) \<Rightarrow> entry list \<Rightarrow> ustr \<Rightarrow> ustr list \<Rightarrow> entry option \<times> rat" where
  "best_match lower entries query field_names = best_match_loop lower query field_names entries (None, 0)"

text \<open>\<open>ToolExecutor._empty_result\<close>.\<close>

definition empty_result :: "TaskPlan \<Rightarrow> RetrievalResult" where
  "empty_result tplan =
     \<lparr>rr_task_type = tp_task_type tplan, rr_query = tp_query tplan, rr_context = [],
      rr_source = [], rr_score = 0,
      rr_metadata = [ascii ''warning'' \<mapsto> ascii ''no matching entry'']\<rparr>"

text \<open>
  The three tools. The fields of the winning entry are read in the order in which the
  source evaluates them; a field read a second time (for \<open>source\<close> and \<open>metadata\<close>)
  has been read before, so it cannot raise there.
\<close>

definition run_anomaly_tool :: "(ustr \<Rightarrow> ustr) \<Rightarrow> ToolExecutor \<Rightarrow> TaskPlan \<Rightarrow> error + RetrievalResult" where
  "run_anomaly_tool lower self tplan =
     (case best_match lower (anomaly_entries self) (tp_query tplan)
             [ascii ''symptom'', ascii ''probable_causes''] of
        (None, sc) \<Rightarrow> Inr (empty_result tplan)
      | (Some e, sc) \<Rightarrow>
          and_then (getitem e (ascii ''alert_id'')) (\<lambda>alert_id.
          and_then (getitem e (ascii ''symptom'')) (\<lambda>symptom.
          and_then (getitem e (ascii ''probable_causes'')) (\<lambda>probable_causes.
          and_then (getitem e (ascii ''recommended_actions'')) (\<lambda>recommended_actions.
            Inr \<lparr>rr_task_type = tp_task_type tplan, rr_query = tp_query tplan,
                 rr_context = [0x544A, 0x8B66, 0x20] @ alert_id @ [0xFF1A] @ symptom
                   @ [0xA, 0x53EF, 0x80FD, 0x539F, 0x56E0, 0xFF1A] @ probable_causes
                   @ [0xA, 0x63A8, 0x8350, 0x63AA, 0x65BD, 0xFF1A] @ recommended_actions,
                 rr_source = ascii ''anomaly_diagnostics.csv#'' @ alert_id,
                 rr_score = sc,
                 rr_metadata = [ascii ''alert_id'' \<mapsto> alert_id]\<rparr>)))))"

definition run_sop_tool :: "(ustr \<Rightarrow> ustr) \<Rightarrow> ToolExecutor \<Rightarrow> TaskPlan \<Rightarrow> error + RetrievalResult" where
  "run_sop_tool lower self tplan =
     (case best_match lower (sop_entries self) (tp_query tplan)
             [ascii ''equipment'', ascii ''issue''] of
        (None, sc) \<Rightarrow> Inr (empty_result tplan)
      | (Some e, sc) \<Rightarrow>
          and_then (getitem e (ascii ''equipment'')) (\<lambda>equipment.
          and_then (getitem e (ascii ''issue'')) (\<lambda>issue.
          and_then (getitem e (ascii ''sop_steps'')) (\<lambda>sop_steps.
            Inr \<lparr>rr_task_type = tp_task_type tplan, rr_query = tp_query tplan,
                 rr_context = [0x8BBE, 0x5907, 0x20] @ equipment
                   @ [0x20, 0x7684, 0x95EE, 0x9898, 0xFF1A] @ issue
                   @ [0xA, 0x53, 0x4F, 0x50, 0x20, 0x6B65, 0x9AA4, 0xFF1A] @ sop_steps,
                 rr_source = ascii ''sop_lookup.csv#'' @ equipment,
                 rr_score = sc,
                 rr_metadata = [ascii ''equipment'' \<mapsto> equipment]\<rparr>))))"

definition run_bom_tool :: "(ustr \<Rightarrow> ustr) \<Rightarrow> ToolExecutor \<Rightarrow> TaskPlan \<Rightarrow> error + RetrievalResult" where
  "run_bom_tool lower self tplan =
     (case best_match lower (bom_entries self) (tp_query tplan)
             [ascii ''asset'', ascii ''issue''] of
        (None, sc) \<Rightarrow> Inr (empty_result tplan)
      | (Some e, sc) \<Rightarrow>
          and_then (getitem e (ascii ''asset'')) (\<lambda>asset.
          and_then (getitem e (ascii ''issue'')) (\<lambda>issue.
          and_then (getitem e (ascii ''work_order'')) (\<lambda>work_order.
          and_then (getitem e (ascii ''advice'')) (\<lambda>advice.
            Inr \<lparr>rr_task_type = tp_task_type tplan, rr_query = tp_query tplan,
                 rr_context = [0x5355, 0x5143, 0x20] @ asset
                   @ [0x20, 0x7684, 0x95EE, 0x9898, 0xFF1A] @ issue
                   @ [0xA, 0x5EFA, 0x8BAE, 0x5DE5, 0x5355, 0xFF1A] @ work_order
                   @ [0xA, 0x6267, 0x884C, 0x5EFA, 0x8BAE, 0xFF1A] @ advice,
                 rr_source = ascii ''bom_workorders.txt#'' @ asset,
                 rr_score = sc,
                 rr_metadata = [ascii ''asset'' \<mapsto> asset, ascii ''work_order'' \<mapsto> work_order]\<rparr>)))))"

text \<open>\<open>ToolExecutor.execute\<close>.\<close>

definition execute :: "(ustr \<Rightarrow> ustr) \<Rightarrow> ToolExecutor \<Rightarrow> TaskPlan \<Rightarrow> error + RetrievalResult" where
  "execute lower self tplan =
     (let tool = tp_tool_name tplan in
      if tool = ascii ''anomaly_diagnosis'' then run_anomaly_tool lower self tplan
      else if tool = ascii ''sop_lookup'' then run_sop_tool lower self tplan
      else if tool = ascii ''workorder_recommendation'' then run_bom_tool lower self tplan
      else Inr \<lparr>rr_task_type = tp_task_type tplan, rr_query = tp_query tplan, rr_context = [],
                rr_source = ascii ''unknown'', rr_score = 0,
                rr_metadata = [ascii ''error'' \<mapsto> ascii ''no tool named '' @ tool]\<rparr>)"

section \<open>solver.py\<close>

record SolveResult =
  sr_answer :: ustr
  sr_plan :: TaskPlan
  sr_references :: "ustr \<rightharpoonup> ustr"
  sr_reasoning :: ustr

text \<open>\<open>Solver._compose_answer\<close>.\<close>

definition compose_answer :: "ustr \<Rightarrow> RetrievalResult \<Rightarrow> ustr" where
  "compose_answer task_type retrieval =
     (let context = rr_context retrieval in
      if task_type = ascii ''anomaly_diagnosis'' then
        [0x3010, 0x544A, 0x8B66, 0x8BCA, 0x65AD, 0x7ED3, 0x679C, 0x3011, 0xA, 0x2D, 0x20,
         0x8BCA, 0x65AD, 0x8981, 0x70B9, 0xFF1A] @ context @
        [0xA, 0x2D, 0x20, 0x8BF7, 0x6309, 0x7167, 0x63A8, 0x8350, 0x63AA, 0x65BD, 0x6267,
         0x884C, 0xFF0C, 0x5E76, 0x8BB0, 0x5F55, 0x5904, 0x7406, 0x7ED3, 0x679C, 0x7528,
         0x4E8E, 0x540E, 0x7EED, 0x8FFD, 0x8E2A, 0x3002]
      else if task_type = ascii ''sop_lookup'' then
        [0x3010, 0x53, 0x4F, 0x50, 0x20, 0x5EFA, 0x8BAE, 0x3011, 0xA, 0x2D, 0x20, 0x68C0,
         0x7D22, 0x7ED3, 0x679C, 0xFF1A] @ context @
        [0xA, 0x2D, 0x20, 0x8BF7, 0x4E25, 0x683C, 0x5BF9, 0x7167, 0x20, 0x53, 0x4F, 0x50,
         0x20, 0x6B65, 0x9AA4, 0x6267, 0x884C, 0xFF0C, 0x5E76, 0x5728, 0x6267, 0x884C,
         0x5355, 0x4E0A, 0x5B8C, 0x6210, 0x7B7E, 0x5B57, 0x786E, 0x8BA4, 0x3002]
      else if task_type = ascii ''workorder_recommendation'' then
        [0x3010, 0x5DE5, 0x5355, 0x63A8, 0x8350, 0x3011, 0xA, 0x2D, 0x20, 0x63A8, 0x8350,
         0x4F9D, 0x636E, 0xFF1A] @ context @
        [0xA, 0x2D, 0x20, 0x82E5, 0x9700, 0x505C, 0x673A, 0xFF0C, 0x8BF7, 0x63D0, 0x524D,
         0x4E0E, 0x751F, 0x4EA7, 0x534F, 0x8C03, 0x786E, 0x8BA4, 0x7A97, 0x53E3, 0x3002]
      else
        [0x3010, 0x901A, 0x7528, 0x54CD, 0x5E94, 0x3011, 0xA, 0x2D, 0x20, 0x53C2, 0x8003,
         0x4FE1, 0x606F, 0xFF1A] @ context @
        [0xA, 0x2D, 0x20, 0x5EFA, 0x8BAE, 0x590D, 0x6838, 0x9700, 0x6C42, 0x7C7B, 0x578B,
         0x4EE5, 0x83B7, 0x53D6, 0x66F4, 0x51C6, 0x786E, 0x5EFA, 0x8BAE, 0x3002])"

text \<open>
  \<open>Solver.solve\<close>: an empty context is falsy. \<open>references.update(metadata)\<close> lets the
  retrieval's metadata override the two base keys. The float format \<open>f"{x:.2f}"\<close> is a
  Python builtin that rounds the IEEE double; it is the parameter \<open>format_2f\<close>, and the
  theorems hold for every such function.
\<close>

definition solve :: "(rat \<Rightarrow> ustr) \<Rightarrow> TaskPlan \<Rightarrow> RetrievalResult \<Rightarrow> SolveResult" where
  "solve format_2f tplan retrieval =
     (let (answer, references) =
            (if rr_context retrieval = [] then
               ([0x672A, 0x68C0, 0x7D22, 0x5230, 0x76F8, 0x5173, 0x77E5, 0x8BC6, 0xFF0C,
                 0x8BF7, 0x8F6C, 0x4EBA, 0x5DE5, 0x6216, 0x8865, 0x5145, 0x66F4, 0x591A,
                 0x4FE1, 0x606F, 0x3002], Map.empty)
             else
               (compose_answer (tp_task_type tplan) retrieval,
                [ascii ''source'' \<mapsto> rr_source retrieval,
                 ascii ''score'' \<mapsto> format_2f (rr_score retrieval)] ++ rr_metadata retrieval));
          reasoning = ascii ''tool='' @ tp_tool_name tplan @ ascii ''; priority=''
            @ (case tp_metadata tplan (ascii ''priority'') of
                 None \<Rightarrow> ascii ''standard'' | Some p \<Rightarrow> p)
      in \<lparr>sr_answer = answer, sr_plan = tplan, sr_references = references,
          sr_reasoning = reasoning\<rparr>)"

section \<open>verifier.py\<close>



section \<open>Properties of the planner\<close>

lemma strip_empty_iff: "strip s = [] \<longleftrightarrow> (\<forall>c\<in>set s. isspace c)"
proof -
  have "strip s = [] \<longleftrightarrow> (\<forall>c\<in>set (dropWhile isspace s). isspace c)"
    by (simp add: strip_def dropWhile_eq_Nil_conv)
  also have "\<dots> \<longleftrightarrow> dropWhile isspace s = []"
  proof
    assume a: "\<forall>c\<in>set (dropWhile isspace s). isspace c"
    show "dropWhile isspace s = []"
    proof (rule ccontr)
      assume "dropWhile isspace s \<noteq> []"
      then have "\<not> isspace (hd (dropWhile isspace s))"
        "hd (dropWhile isspace s) \<in> set (dropWhile isspace s)"
        by (simp_all add: hd_dropWhile)
      with a show False by blast
    qed
  qed (auto dest: set_dropWhileD)
  also have "\<dots> \<longleftrightarrow> (\<forall>c\<in>set s. isspace c)"
    by (simp add: dropWhile_eq_Nil_conv)
  finally show ?thesis .
qed

lemma plan_loop_query: "tp_query (plan_loop lower dt request normalized rules) = strip request"
  by (induction rules) (simp_all add: Let_def extract_query_def)

text \<open>
  C7, as stated, fails: a non-empty request of whitespace only (here a single space)
  gets the empty query.
\<close>

theorem plan_query_counterexample:
  "ascii '' '' \<noteq> [] \<and> tp_query (plan lower_ascii (ascii ''sop_lookup'') (ascii '' '')) = []"
  by (simp add: plan_def plan_loop_query strip_def ascii_def isspace_def)

text \<open>
  C7 (amended): the query of the plan is the request with its leading and trailing
  whitespace removed; it is empty exactly when every character of the request is
  whitespace, so every request with a non-whitespace character gets a non-empty query.
\<close>

theorem plan_query_trimmed:
  "tp_query (plan lower default_task request) = strip request \<and>
   (tp_query (plan lower default_task request) = [] \<longleftrightarrow> (\<forall>c\<in>set request. isspace c))"
  by (simp add: plan_def plan_loop_query strip_empty_iff)

text \<open>An instance: the request \<open>" ab "\<close> gets the query \<open>"ab"\<close>.\<close>

theorem plan_query_trimmed_witness:
  "tp_query (plan lower_ascii (ascii ''sop_lookup'') (ascii '' ab '')) = ascii ''ab''"
  using plan_query_trimmed [of lower_ascii "ascii ''sop_lookup''" "ascii '' ab ''"]
  by (simp add: strip_def ascii_def isspace_def)

lemma plan_loop_first:
  assumes "i < length rules"
    and "\<exists>kw\<in>set (rule_keywords (rules ! i)). sublist (lower kw) normalized"
    and "\<forall>k<i. \<not> (\<exists>kw\<in>set (rule_keywords (rules ! k)). sublist (lower kw) normalized)"
  shows "tp_task_type (plan_loop lower dt request normalized rules) = rule_task_type (rules ! i) \<and>
         tp_tool_name (plan_loop lower dt request normalized rules) = rule_tool (rules ! i)"
  using assms
proof (induction rules arbitrary: i)
  case Nil
  then show ?case by simp
next
  case (Cons r rules)
  show ?case
  proof (cases i)
    case 0
    with Cons.prems(2) have "filter (\<lambda>kw. sublist (lower kw) normalized) (rule_keywords r) \<noteq> []"
      by (simp add: filter_empty_conv)
    with 0 show ?thesis by (simp add: Let_def)
  next
    case (Suc n)
    with Cons.prems(3) have "\<not> (\<exists>kw\<in>set (rule_keywords ((r # rules) ! 0)). sublist (lower kw) normalized)"
      by blast
    then have miss: "filter (\<lambda>kw. sublist (lower kw) normalized) (rule_keywords r) = []"
      by (simp add: filter_empty_conv)
    have "n < length rules" using Cons.prems(1) Suc by simp
    moreover have "\<exists>kw\<in>set (rule_keywords (rules ! n)). sublist (lower kw) normalized"
      using Cons.prems(2) Suc by simp
    moreover have "\<forall>k<n. \<not> (\<exists>kw\<in>set (rule_keywords (rules ! k)). sublist (lower kw) normalized)"
    proof (intro allI impI)
      fix k assume "k < n"
      then have "Suc k < i" using Suc by simp
      with Cons.prems(3) have "\<not> (\<exists>kw\<in>set (rule_keywords ((r # rules) ! Suc k)). sublist (lower kw) normalized)"
        by blast
      then show "\<not> (\<exists>kw\<in>set (rule_keywords (rules ! k)). sublist (lower kw) normalized)" by simp
    qed
    ultimately have "tp_task_type (plan_loop lower dt request normalized rules) = rule_task_type (rules ! n) \<and>
         tp_tool_name (plan_loop lower dt request normalized rules) = rule_tool (rules ! n)"
      by (rule Cons.IH)
    with miss Suc show ?thesis by (simp add: Let_def)
  qed
qed

lemma plan_loop_fallback:
  assumes "\<forall>r\<in>set rules. \<not> (\<exists>kw\<in>set (rule_keywords r). sublist (lower kw) normalized)"
  shows "tp_task_type (plan_loop lower dt request normalized rules) = dt \<and>
         tp_tool_name (plan_loop lower dt request normalized rules) = dt"
  using assms
proof (induction rules)
  case Nil
  then show ?case by simp
next
  case (Cons r rules)
  then have "filter (\<lambda>kw. sublist (lower kw) normalized) (rule_keywords r) = []"
    by (simp add: filter_empty_conv)
  with Cons show ?case by (simp add: Let_def)
qed

lemma first_hit_exists:
  fixes P :: "nat \<Rightarrow> bool"
  assumes "P i"
  shows "\<exists>f\<le>i. P f \<and> (\<forall>k<f. \<not> P k)"
proof -
  have "P (LEAST k. P k)" using assms by (rule LeastI)
  moreover have "(LEAST k. P k) \<le> i" using assms by (rule Least_le)
  moreover have "\<forall>k<(LEAST k. P k). \<not> P k" using not_less_Least by blast
  ultimately show ?thesis by blast
qed

lemma TASK_RULES_distinct: "distinct (map rule_task_type TASK_RULES)"
  by (simp add: TASK_RULES_def ascii_def)

text \<open>
  C4: the first rule of \<open>_TASK_RULES\<close>, in declaration order, with a keyword whose
  lowered form occurs in the lowered request decides the task type and the tool; of two
  rules with such a keyword the later one never decides; with no such rule the default
  task is used; and a request with an anomaly keyword is classified as
  \<open>anomaly_diagnosis\<close> whatever other keywords it contains.
\<close>

theorem plan_first_rule_wins:
  "(\<forall>i<length TASK_RULES.
      (\<exists>kw\<in>set (rule_keywords (TASK_RULES ! i)). sublist (lower kw) (lower request)) \<and>
      (\<forall>k<i. \<not> (\<exists>kw\<in>set (rule_keywords (TASK_RULES ! k)). sublist (lower kw) (lower request)))
      \<longrightarrow> tp_task_type (plan lower default_task request) = rule_task_type (TASK_RULES ! i) \<and>
          tp_tool_name (plan lower default_task request) = rule_tool (TASK_RULES ! i)) \<and>
   (\<forall>i j. i < j \<and> j < length TASK_RULES \<and>
      (\<exists>kw\<in>set (rule_keywords (TASK_RULES ! i)). sublist (lower kw) (lower request)) \<and>
      (\<exists>kw\<in>set (rule_keywords (TASK_RULES ! j)). sublist (lower kw) (lower request))
      \<longrightarrow> (\<exists>f\<le>i. tp_task_type (plan lower default_task request) = rule_task_type (TASK_RULES ! f)) \<and>
          tp_task_type (plan lower default_task request) \<noteq> rule_task_type (TASK_RULES ! j)) \<and>
   ((\<forall>r\<in>set TASK_RULES. \<not> (\<exists>kw\<in>set (rule_keywords r). sublist (lower kw) (lower request)))
      \<longrightarrow> tp_task_type (plan lower default_task request) = default_task \<and>
          tp_tool_name (plan lower default_task request) = default_task) \<and>
   ((\<exists>kw\<in>set [[0x544A, 0x8B66], [0x62A5, 0x8B66], [0x5F02, 0x5E38], [0x8BCA, 0x65AD]].
        sublist (lower kw) (lower request))
      \<longrightarrow> tp_task_type (plan lower default_task request) = ascii ''anomaly_diagnosis'')"
proof (intro conjI allI impI)
  fix i
  assume "i < length TASK_RULES"
    and "(\<exists>kw\<in>set (rule_keywords (TASK_RULES ! i)). sublist (lower kw) (lower request)) \<and>
      (\<forall>k<i. \<not> (\<exists>kw\<in>set (rule_keywords (TASK_RULES ! k)). sublist (lower kw) (lower request)))"
  then have r: "tp_task_type (plan lower default_task request) = rule_task_type (TASK_RULES ! i) \<and>
          tp_tool_name (plan lower default_task request) = rule_tool (TASK_RULES ! i)"
    unfolding plan_def by (intro plan_loop_first) blast+
  from r show "tp_task_type (plan lower default_task request) = rule_task_type (TASK_RULES ! i)" ..
  from r show "tp_tool_name (plan lower default_task request) = rule_tool (TASK_RULES ! i)" ..
next
  fix i j
  let ?hit = "\<lambda>n. \<exists>kw\<in>set (rule_keywords (TASK_RULES ! n)). sublist (lower kw) (lower request)"
  assume a: "i < j \<and> j < length TASK_RULES \<and> ?hit i \<and> ?hit j"
  then have "?hit i" by blast
  from first_hit_exists[of ?hit, OF this]
  obtain f where f: "f \<le> i" "?hit f" "\<forall>k<f. \<not> ?hit k" by blast
  with a have fl: "f < length TASK_RULES" by simp
  have r: "tp_task_type (plan lower default_task request) = rule_task_type (TASK_RULES ! f)"
    unfolding plan_def using plan_loop_first[OF fl f(2) f(3)] by blast
  with f(1) show "\<exists>f\<le>i. tp_task_type (plan lower default_task request) = rule_task_type (TASK_RULES ! f)"
    by blast
  have "f \<noteq> j" using f(1) a by simp
  with fl a TASK_RULES_distinct have "rule_task_type (TASK_RULES ! f) \<noteq> rule_task_type (TASK_RULES ! j)"
    by (simp add: distinct_conv_nth)
  with r show "tp_task_type (plan lower default_task request) \<noteq> rule_task_type (TASK_RULES ! j)"
    by simp
next
  assume a: "\<forall>r\<in>set TASK_RULES. \<not> (\<exists>kw\<in>set (rule_keywords r). sublist (lower kw) (lower request))"
  from plan_loop_fallback[OF a]
  show "tp_task_type (plan lower default_task request) = default_task"
    and "tp_tool_name (plan lower default_task request) = default_task"
    by (simp_all add: plan_def)
next
  assume "\<exists>kw\<in>set [[0x544A, 0x8B66], [0x62A5, 0x8B66], [0x5F02, 0x5E38], [0x8BCA, 0x65AD]].
        sublist (lower kw) (lower request)"
  then have "filter (\<lambda>kw. sublist (lower kw) (lower request))
      [[0x544A, 0x8B66], [0x62A5, 0x8B66], [0x5F02, 0x5E38], [0x8BCA, 0x65AD]] \<noteq> []"
    unfolding filter_empty_conv by blast
  then show "tp_task_type (plan lower default_task request) = ascii ''anomaly_diagnosis''"
    by (simp add: plan_def TASK_RULES_def Let_def del: filter.simps)
qed

text \<open>
  An instance of C4: a request with the SOP keyword \<open>sop\<close> and an anomaly keyword
  is classified as \<open>anomaly_diagnosis\<close>.
\<close>

theorem plan_first_rule_wins_witness:
  "sublist (ascii ''sop'') (lower_ascii (ascii ''SOP '' @ [0x544A, 0x8B66])) \<and>
   sublist [0x544A, 0x8B66] (lower_ascii (ascii ''SOP '' @ [0x544A, 0x8B66])) \<and>
   tp_task_type (plan lower_ascii (ascii ''sop_lookup'') (ascii ''SOP '' @ [0x544A, 0x8B66]))
     = ascii ''anomaly_diagnosis''"
proof -
  let ?req = "ascii ''SOP '' @ [0x544A, 0x8B66]"
  have s: "sublist (ascii ''sop'') (lower_ascii ?req)"
    by (simp add: lower_ascii_def ascii_def sublist_code)
  have h: "sublist [0x544A, 0x8B66] (lower_ascii ?req)"
    by (simp add: lower_ascii_def ascii_def sublist_code)
  have "lower_ascii [0x544A, 0x8B66] = [0x544A, 0x8B66]" by (simp add: lower_ascii_def)
  with h have "\<exists>kw\<in>set [[0x544A, 0x8B66], [0x62A5, 0x8B66], [0x5F02, 0x5E38], [0x8BCA, 0x65AD]].
        sublist (lower_ascii kw) (lower_ascii ?req)"
    by simp
  with plan_first_rule_wins [of lower_ascii ?req "ascii ''sop_lookup''"]
  have "tp_task_type (plan lower_ascii (ascii ''sop_lookup'') ?req) = ascii ''anomaly_diagnosis''"
    by blast
  with s h show ?thesis by blast
qed

section \<open>Properties of the similarity score\<close>

subsection \<open>The ratio is at most 1\<close>

lemma sum_insort_key:
  fixes f :: "'a \<Rightarrow> nat"
  shows "sum_list (map f (insort_key g x xs)) = f x + sum_list (map f xs)"
  by (induction xs) simp_all

lemma sum_sort_key:
  fixes f :: "'a \<Rightarrow> nat"
  shows "sum_list (map f (sort_key g xs)) = sum_list (map f xs)"
  by (induction xs) (simp_all add: sum_insort_key)

lemma sum_collapse:
  "sum_list (map (\<lambda>(i, j, k). k) (collapse blocks (i1, j1, k1) non_adjacent)) =
     sum_list (map (\<lambda>(i, j, k). k) blocks) + k1 + sum_list (map (\<lambda>(i, j, k). k) non_adjacent)"
  by (induction blocks "(i1, j1, k1)" non_adjacent arbitrary: i1 j1 k1 rule: collapse.induct) auto

lemma sum_get_matching_blocks:
  "sum_list (map (\<lambda>(i, j, k). k) (get_matching_blocks a b)) =
     sum_list (map (\<lambda>(i, j, k). k) (blocks_loop a b [(0, length a, 0, length b)] []))"
  by (simp add: get_matching_blocks_def sum_collapse sum_sort_key)

lemma blocks_loop_sum_a:
  "sum_list (map (\<lambda>(i, j, k). k) (blocks_loop a b queue mb)) \<le>
     sum_list (map (\<lambda>(i, j, k). k) mb) + sum_list (map (\<lambda>(alo, ahi, blo, bhi). ahi - alo) queue)"
proof (induction a b queue mb rule: blocks_loop.induct)
  case (1 a b matching_blocks)
  then show ?case by simp
next
  case (2 a b alo ahi blo bhi queue matching_blocks)
  let ?S = "\<lambda>l :: (nat \<times> nat \<times> nat) list. sum_list (map (\<lambda>(i, j, k). k) l)"
  let ?Q = "\<lambda>l :: (nat \<times> nat \<times> nat \<times> nat) list. sum_list (map (\<lambda>(alo, ahi, blo, bhi). ahi - alo) l)"
  obtain i j k where f: "find_longest_match a b alo ahi blo bhi = (i, j, k)"
    by (metis surj_pair)
  from find_longest_match_bounds[OF f]
  have bd: "alo \<le> i" "k > 0 \<longrightarrow> i + k \<le> ahi" by auto
  have q2: "?Q ((alo, ahi, blo, bhi) # queue) = (ahi - alo) + ?Q queue" by simp
  show ?case
  proof (cases "k = 0")
    case True
    then have e: "blocks_loop a b ((alo, ahi, blo, bhi) # queue) matching_blocks =
        blocks_loop a b queue matching_blocks"
      using f by (subst blocks_loop.simps) (simp del: blocks_loop.simps)
    have "?S (blocks_loop a b queue matching_blocks) \<le> ?S matching_blocks + ?Q queue"
      using "2.IH"(2)[OF f[symmetric] refl] True by blast
    then show ?thesis unfolding e q2 by linarith
  next
    case False
    let ?q = "(if i + k < ahi \<and> j + k < bhi then [(i + k, ahi, j + k, bhi)] else []) @
             (if alo < i \<and> blo < j then [(alo, i, blo, j)] else []) @ queue"
    have e: "blocks_loop a b ((alo, ahi, blo, bhi) # queue) matching_blocks =
        blocks_loop a b ?q (matching_blocks @ [(i, j, k)])"
      using f False by (subst blocks_loop.simps) (simp del: blocks_loop.simps)
    have ih: "?S (blocks_loop a b ?q (matching_blocks @ [(i, j, k)])) \<le>
        ?S (matching_blocks @ [(i, j, k)]) + ?Q ?q"
      using "2.IH"(1)[OF f[symmetric] refl] False by blast
    have s1: "?S (matching_blocks @ [(i, j, k)]) = ?S matching_blocks + k" by simp
    have q1: "?Q ?q + k \<le> (ahi - alo) + ?Q queue"
      using bd False by auto
    show ?thesis unfolding e q2 using ih s1 q1 by linarith
  qed
qed

lemma blocks_loop_sum_b:
  "sum_list (map (\<lambda>(i, j, k). k) (blocks_loop a b queue mb)) \<le>
     sum_list (map (\<lambda>(i, j, k). k) mb) + sum_list (map (\<lambda>(alo, ahi, blo, bhi). bhi - blo) queue)"
proof (induction a b queue mb rule: blocks_loop.induct)
  case (1 a b matching_blocks)
  then show ?case by simp
next
  case (2 a b alo ahi blo bhi queue matching_blocks)
  let ?S = "\<lambda>l :: (nat \<times> nat \<times> nat) list. sum_list (map (\<lambda>(i, j, k). k) l)"
  let ?Q = "\<lambda>l :: (nat \<times> nat \<times> nat \<times> nat) list. sum_list (map (\<lambda>(alo, ahi, blo, bhi). bhi - blo) l)"
  obtain i j k where f: "find_longest_match a b alo ahi blo bhi = (i, j, k)"
    by (metis surj_pair)
  from find_longest_match_bounds[OF f]
  have bd: "blo \<le> j" "k > 0 \<longrightarrow> j + k \<le> bhi" by auto
  have q2: "?Q ((alo, ahi, blo, bhi) # queue) = (bhi - blo) + ?Q queue" by simp
  show ?case
  proof (cases "k = 0")
    case True
    then have e: "blocks_loop a b ((alo, ahi, blo, bhi) # queue) matching_blocks =
        blocks_loop a b queue matching_blocks"
      using f by (subst blocks_loop.simps) (simp del: blocks_loop.simps)
    have "?S (blocks_loop a b queue matching_blocks) \<le> ?S matching_blocks + ?Q queue"
      using "2.IH"(2)[OF f[symmetric] refl] True by blast
    then show ?thesis unfolding e q2 by linarith
  next
    case False
    let ?q = "(if i + k < ahi \<and> j + k < bhi then [(i + k, ahi, j + k, bhi)] else []) @
             (if alo < i \<and> blo < j then [(alo, i, blo, j)] else []) @ queue"
    have e: "blocks_loop a b ((alo, ahi, blo, bhi) # queue) matching_blocks =
        blocks_loop a b ?q (matching_blocks @ [(i, j, k)])"
      using f False by (subst blocks_loop.simps) (simp del: blocks_loop.simps)
    have ih: "?S (blocks_loop a b ?q (matching_blocks @ [(i, j, k)])) \<le>
        ?S (matching_blocks @ [(i, j, k)]) + ?Q ?q"
      using "2.IH"(1)[OF f[symmetric] refl] False by blast
    have s1: "?S (matching_blocks @ [(i, j, k)]) = ?S matching_blocks + k" by simp
    have q1: "?Q ?q + k \<le> (bhi - blo) + ?Q queue"
      using bd False by auto
    show ?thesis unfolding e q2 using ih s1 q1 by linarith
  qed
qed

lemma matches_bound:
  "2 * sum_list (map (\<lambda>(i, j, k). k) (get_matching_blocks a b)) \<le> length a + length b"
  using blocks_loop_sum_a[of a b "[(0, length a, 0, length b)]" "[]"]
    blocks_loop_sum_b[of a b "[(0, length a, 0, length b)]" "[]"]
  by (simp add: sum_get_matching_blocks del: blocks_loop.simps)

lemma ratio_bounds: "0 \<le> ratio a b \<and> ratio a b \<le> 1"
proof (cases "length a + length b = 0")
  case True
  then show ?thesis by (simp add: ratio_def calculate_ratio_def)
next
  case False
  let ?m = "sum_list (map (\<lambda>(i, j, k). k) (get_matching_blocks a b))"
  let ?t = "length a + length b"
  have "2 * ?m \<le> ?t" by (rule matches_bound)
  then have le: "(2 * of_nat ?m :: rat) \<le> of_nat ?t"
    by (metis of_nat_le_iff of_nat_mult of_nat_numeral)
  have pos: "(0 :: rat) < of_nat ?t" using False by (simp del: of_nat_add)
  have r: "ratio a b = 2 * of_nat ?m / of_nat ?t"
    using False by (simp add: ratio_def calculate_ratio_def)
  have "0 \<le> (2 * of_nat ?m :: rat) / of_nat ?t"
    by (rule divide_nonneg_pos[OF _ pos]) simp
  moreover have "(2 * of_nat ?m :: rat) / of_nat ?t \<le> 1"
    using le pos by (simp only: divide_le_eq_1_pos)
  ultimately show ?thesis unfolding r by blast
qed

subsection \<open>The ratio of a string with itself\<close>

text \<open>
  On equal strings the main loop of \<open>find_longest_match\<close> only ever improves the
  best match on the diagonal: \<open>run_len a d\<close> is the length of the run of elements
  that are not popular ending at \<open>d\<close>, the value the loop stores at the diagonal
  cell \<open>(d, d)\<close>, and a match ending at the cell \<open>(i, j)\<close> is no longer than the
  runs at \<open>i\<close> and at \<open>j\<close>. The two extension loops then reach both ends.
\<close>

fun run_len :: "ustr \<Rightarrow> nat \<Rightarrow> nat" where
  "run_len a 0 = (if popular a (a ! 0) then 0 else 1)"
| "run_len a (Suc d) = (if popular a (a ! Suc d) then 0 else run_len a d + 1)"

definition match_at :: "ustr \<Rightarrow> nat \<Rightarrow> nat \<Rightarrow> nat \<Rightarrow> bool" where
  "match_at a i j k \<longleftrightarrow>
     k \<le> i + 1 \<and> k \<le> j + 1 \<and> (\<forall>t<k. a ! (j - t) = a ! (i - t) \<and> \<not> popular a (a ! (j - t)))"

definition row_diag :: "ustr \<Rightarrow> nat \<Rightarrow> (nat \<rightharpoonup> nat) \<Rightarrow> bool" where
  "row_diag a i j2len \<longleftrightarrow>
     (\<forall>j v. j2len j = Some v \<longrightarrow> 0 < i \<and> 0 < v \<and> match_at a (i - 1) j v) \<and>
     (0 < i \<and> \<not> popular a (a ! (i - 1)) \<longrightarrow> j2len (i - 1) = Some (run_len a (i - 1)))"

lemma run_len_popular: "popular a (a ! d) \<Longrightarrow> run_len a d = 0"
  by (cases d) simp_all

lemma run_len_ge: "k \<le> d + 1 \<Longrightarrow> \<forall>t<k. \<not> popular a (a ! (d - t)) \<Longrightarrow> k \<le> run_len a d"
proof (induction d arbitrary: k)
  case 0
  then show ?case by (cases k) auto
next
  case (Suc d)
  show ?case
  proof (cases k)
    case 0
    then show ?thesis by simp
  next
    case (Suc k')
    with Suc.prems(2) have np: "\<not> popular a (a ! Suc d)" by (auto dest: spec[of _ 0])
    have "k' \<le> d + 1" using Suc.prems(1) Suc by simp
    moreover have "\<forall>t<k'. \<not> popular a (a ! (d - t))"
    proof (intro allI impI)
      fix t assume "t < k'"
      then have "Suc t < k" using Suc by simp
      with Suc.prems(2) have "\<not> popular a (a ! (Suc d - Suc t))" by blast
      then show "\<not> popular a (a ! (d - t))" by simp
    qed
    ultimately have "k' \<le> run_len a d" by (rule Suc.IH)
    with np Suc show ?thesis by simp
  qed
qed

lemma match_at_run: "match_at a i j k \<Longrightarrow> k \<le> run_len a j \<and> k \<le> run_len a i"
  unfolding match_at_def by (auto intro!: run_len_ge)

lemma step_value_match:
  assumes "row_diag a i j2len" "a ! j = a ! i" "\<not> popular a (a ! i)"
  shows "match_at a i j (j2lenget j2len j + 1)"
proof -
  have one: "match_at a i j 1"
    using assms(2,3) by (simp add: match_at_def)
  show ?thesis
  proof (cases "j = 0")
    case True
    with one show ?thesis by (simp add: j2lenget_def)
  next
    case False
    show ?thesis
    proof (cases "j2len (j - 1)")
      case None
      with one False show ?thesis by (simp add: j2lenget_def)
    next
      case (Some v)
      with assms(1) have i: "0 < i" and m: "match_at a (i - 1) (j - 1) v"
        by (auto simp: row_diag_def)
      from m have b: "v \<le> i" "v \<le> j"
        and eq: "\<forall>t<v. a ! (j - 1 - t) = a ! (i - 1 - t) \<and> \<not> popular a (a ! (j - 1 - t))"
        using i False by (auto simp: match_at_def)
      have b': "v + 1 \<le> i + 1" "v + 1 \<le> j + 1" using b by simp_all
      have "\<forall>t<v + 1. a ! (j - t) = a ! (i - t) \<and> \<not> popular a (a ! (j - t))"
      proof (intro allI impI)
        fix t assume t: "t < v + 1"
        show "a ! (j - t) = a ! (i - t) \<and> \<not> popular a (a ! (j - t))"
        proof (cases t)
          case 0
          with assms(2,3) show ?thesis by simp
        next
          case (Suc t')
          with t have "t' < v" by simp
          with eq have "a ! (j - 1 - t') = a ! (i - 1 - t') \<and> \<not> popular a (a ! (j - 1 - t'))"
            by blast
          with Suc show ?thesis by auto
        qed
      qed
      with b' have "match_at a i j (v + 1)" unfolding match_at_def by blast
      with Some False show ?thesis by (simp add: j2lenget_def)
    qed
  qed
qed

lemma diag_value:
  assumes "row_diag a i j2len" "\<not> popular a (a ! i)"
  shows "j2lenget j2len i + 1 = run_len a i"
proof (cases i)
  case 0
  with assms(2) show ?thesis by (simp add: j2lenget_def)
next
  case (Suc i')
  show ?thesis
  proof (cases "popular a (a ! i')")
    case True
    have "j2len i' = None"
    proof (rule ccontr)
      assume "j2len i' \<noteq> None"
      then obtain v where "j2len i' = Some v" by auto
      with assms(1) Suc have "0 < v" "match_at a i' i' v" by (auto simp: row_diag_def)
      then have "\<not> popular a (a ! (i' - 0))" unfolding match_at_def by blast
      with True show False by simp
    qed
    with True Suc assms(2) show ?thesis by (simp add: j2lenget_def run_len_popular)
  next
    case False
    with assms(1) Suc have "j2len i' = Some (run_len a i')" by (simp add: row_diag_def)
    with Suc assms(2) show ?thesis by (simp add: j2lenget_def)
  qed
qed

lemma inner_loop_diag:
  assumes "row_diag a i j2len" "\<not> popular a (a ! i)"
    and "sorted_wrt (<) js" "\<forall>j\<in>set js. j < n \<and> a ! j = a ! i"
    and "\<forall>j v. m j = Some v \<longrightarrow> 0 < v \<and> match_at a i j v"
    and "bi = bj" "\<forall>d<i. run_len a d \<le> bs"
    and "i \<in> set js \<or> (run_len a i \<le> bs \<and> m i = Some (run_len a i))"
    and "inner_loop i 0 n j2len js (m, (bi, bj, bs)) = (m', (bi', bj', bs'))"
  shows "(\<forall>j v. m' j = Some v \<longrightarrow> 0 < v \<and> match_at a i j v) \<and> bi' = bj' \<and>
         (\<forall>d<i. run_len a d \<le> bs') \<and> run_len a i \<le> bs' \<and> m' i = Some (run_len a i)"
  using assms(3-)
proof (induction js arbitrary: m bi bj bs)
  case Nil
  then show ?case by simp
next
  case (Cons j js)
  let ?k = "j2lenget j2len j + 1"
  have jn: "j < n" and ja: "a ! j = a ! i" using Cons.prems(2) by auto
  have srt: "sorted_wrt (<) js" and gt: "\<forall>x\<in>set js. j < x" using Cons.prems(1) by auto
  have rest: "\<forall>x\<in>set js. x < n \<and> a ! x = a ! i" using Cons.prems(2) by auto
  have mk: "match_at a i j ?k" by (rule step_value_match[OF assms(1) ja assms(2)])
  then have run: "?k \<le> run_len a j" "?k \<le> run_len a i" using match_at_run by blast+
  have m1: "\<forall>x v. (m(j \<mapsto> ?k)) x = Some v \<longrightarrow> 0 < v \<and> match_at a i x v"
    using Cons.prems(3) mk by auto
  show ?case
  proof (cases "?k > bs")
    case True
    have "j = i"
    proof (rule ccontr)
      assume ne: "j \<noteq> i"
      show False
      proof (cases "j < i")
        case True
        with Cons.prems(5) have "run_len a j \<le> bs" by blast
        with run(1) \<open>?k > bs\<close> show False by simp
      next
        case False
        with ne have "i < j" by simp
        with gt have "i \<notin> set (j # js)" by auto
        with Cons.prems(6) have "run_len a i \<le> bs" by blast
        with run(2) \<open>?k > bs\<close> show False by simp
      qed
    qed
    then have kv: "?k = run_len a i" using diag_value[OF assms(1,2)] by simp
    have step: "inner_loop i 0 n j2len js (m(j \<mapsto> ?k), (i + 1 - ?k, j + 1 - ?k, ?k)) = (m', (bi', bj', bs'))"
      using Cons.prems(7) jn True by (simp add: Let_def del: fun_upd_apply)
    have "i + 1 - ?k = j + 1 - ?k" using \<open>j = i\<close> by simp
    moreover have "\<forall>d<i. run_len a d \<le> ?k" using Cons.prems(5) True by fastforce
    moreover have "i \<in> set js \<or> (run_len a i \<le> ?k \<and> (m(j \<mapsto> ?k)) i = Some (run_len a i))"
      using kv \<open>j = i\<close> by simp
    ultimately show ?thesis
      using Cons.IH[OF srt rest m1 _ _ _ step] by blast
  next
    case False
    have step: "inner_loop i 0 n j2len js (m(j \<mapsto> ?k), (bi, bj, bs)) = (m', (bi', bj', bs'))"
      using Cons.prems(7) jn False by (simp add: Let_def del: fun_upd_apply)
    have "i \<in> set js \<or> (run_len a i \<le> bs \<and> (m(j \<mapsto> ?k)) i = Some (run_len a i))"
    proof (cases "j = i")
      case True
      then have "?k = run_len a i" using diag_value[OF assms(1,2)] by simp
      with False True show ?thesis by simp
    next
      case ne: False
      with Cons.prems(6) show ?thesis by auto
    qed
    then show ?thesis
      using Cons.IH[OF srt rest m1 Cons.prems(4) Cons.prems(5) _ step] by blast
  qed
qed

lemma row_step_diag:
  assumes "row_diag a i j2len" "i < length a" "bi = bj" "\<forall>d<i. run_len a d \<le> bs"
    and "inner_loop i 0 (length a) j2len (b2j a (a ! i)) (Map.empty, (bi, bj, bs)) = (m', (bi', bj', bs'))"
  shows "row_diag a (i + 1) m' \<and> bi' = bj' \<and> (\<forall>d<i + 1. run_len a d \<le> bs')"
proof (cases "popular a (a ! i)")
  case True
  then have "b2j a (a ! i) = []" by (simp add: b2j_def)
  with assms(5) have "m' = Map.empty" "bi' = bi" "bj' = bj" "bs' = bs" by simp_all
  with assms(3,4) True show ?thesis
    by (auto simp: row_diag_def run_len_popular less_Suc_eq)
next
  case False
  let ?js = "b2j a (a ! i)"
  have js: "?js = filter (\<lambda>j. a ! j = a ! i) [0..<length a]" using False by (simp add: b2j_def)
  have s: "sorted_wrt (<) ?js" unfolding js by (rule sorted_wrt_filter) simp
  have r: "\<forall>j\<in>set ?js. j < length a \<and> a ! j = a ! i" unfolding js by simp
  have i: "i \<in> set ?js \<or> (run_len a i \<le> bs \<and> Map.empty i = Some (run_len a i))"
    unfolding js using assms(2) by simp
  have e: "\<forall>j v. Map.empty j = Some v \<longrightarrow> 0 < v \<and> match_at a i j v" by simp
  from inner_loop_diag[OF assms(1) False s r e assms(3,4) i assms(5)]
  show ?thesis by (auto simp: row_diag_def less_Suc_eq)
qed

lemma outer_loop_diag:
  assumes "row_diag a lo j2len" "bi = bj" "\<forall>d<lo. run_len a d \<le> bs"
    and "outer_loop a a 0 (length a) [lo..<length a] (j2len, (bi, bj, bs)) = (m', (bi', bj', bs'))"
  shows "bi' = bj'"
  using assms
proof (induction "length a - lo" arbitrary: lo j2len bi bj bs)
  case 0
  then show ?case by simp
next
  case (Suc x)
  then have lt: "lo < length a" by simp
  obtain m1 ci cj cs where il:
    "inner_loop lo 0 (length a) j2len (b2j a (a ! lo)) (Map.empty, (bi, bj, bs)) = (m1, (ci, cj, cs))"
    by (metis surj_pair)
  from row_step_diag[OF Suc.prems(1) lt Suc.prems(2,3) il]
  have i1: "row_diag a (lo + 1) m1" "ci = cj" "\<forall>d<lo + 1. run_len a d \<le> cs" by auto
  have "outer_loop a a 0 (length a) [lo + 1..<length a] (m1, (ci, cj, cs)) = (m', (bi', bj', bs'))"
    using Suc.prems(4) lt il by (simp add: upt_conv_Cons)
  from Suc.hyps(1)[OF _ i1 this] Suc.hyps(2) show ?case by simp
qed

lemma extend_left_same: "extend_left a a 0 0 (d, d, s) = (0, 0, s + d)"
proof (induction d arbitrary: s)
  case 0
  then show ?case by simp
next
  case (Suc d)
  have "extend_left a a 0 0 (Suc d, Suc d, s) = extend_left a a 0 0 (d, d, s + 1)"
    by (subst extend_left.simps) simp
  with Suc[of "s + 1"] show ?case by simp
qed

lemma extend_right_same: "s \<le> n \<Longrightarrow> extend_right a a n n (0, 0, s) = (0, 0, n)"
proof (induction "n - s" arbitrary: s)
  case 0
  then show ?case by simp
next
  case (Suc x)
  then have "s < n" by simp
  then have "extend_right a a n n (0, 0, s) = extend_right a a n n (0, 0, s + 1)"
    by (subst extend_right.simps) simp
  moreover have "extend_right a a n n (0, 0, s + 1) = (0, 0, n)"
    using Suc.hyps(2) \<open>s < n\<close> by (intro Suc.hyps(1)) simp_all
  ultimately show ?case by simp
qed

lemma find_longest_match_same:
  "find_longest_match a a 0 (length a) 0 (length a) = (0, 0, length a)"
proof -
  let ?n = "length a"
  obtain m0 bi bj bs where o: "outer_loop a a 0 ?n [0..<?n] (Map.empty, (0, 0, 0)) = (m0, (bi, bj, bs))"
    by (metis surj_pair)
  have "best_inv (max 0 ?n) 0 ?n 0 ?n (bi, bj, bs)"
    by (rule outer_loop_inv[OF _ _ _ o]) (simp_all add: row_inv_def best_inv_def)
  then have b: "bi + bs \<le> ?n" by (cases "bs = 0") (auto simp: best_inv_def)
  have "row_diag a 0 Map.empty" by (simp add: row_diag_def)
  from outer_loop_diag[OF this _ _ o] have d: "bi = bj" by simp
  have "find_longest_match a a 0 ?n 0 ?n = extend_right a a ?n ?n (extend_left a a 0 0 (bi, bi, bs))"
    using o d by (simp add: find_longest_match_def del: extend_left.simps extend_right.simps)
  also have "\<dots> = extend_right a a ?n ?n (0, 0, bs + bi)"
    by (simp only: extend_left_same)
  also have "\<dots> = (0, 0, ?n)"
    using b by (intro extend_right_same) simp
  finally show ?thesis .
qed

lemma ratio_same: "ratio a a = 1"
proof (cases "a = []")
  case True
  then show ?thesis by (simp add: ratio_def calculate_ratio_def)
next
  case False
  let ?n = "length a"
  have "blocks_loop a a [(0, ?n, 0, ?n)] [] = [(0, 0, ?n)]"
    using False by (subst blocks_loop.simps) (simp add: find_longest_match_same)
  then have "sum_list (map (\<lambda>(i, j, k). k) (get_matching_blocks a a)) = ?n"
    by (simp add: sum_get_matching_blocks del: blocks_loop.simps)
  then show ?thesis
    using False by (simp add: ratio_def calculate_ratio_def)
qed

text \<open>
  C2: the score of two strings lies between 0 and 1; the score of a non-empty string
  with itself is 1; the score is 0 when either string is empty.
\<close>

theorem score_bounds:
  "0 \<le> score lower a b \<and> score lower a b \<le> 1 \<and>
   (a \<noteq> [] \<longrightarrow> score lower a a = 1) \<and>
   score lower a [] = 0 \<and> score lower [] b = 0"
  using ratio_bounds [of "lower a" "lower b"] by (simp add: score_def ratio_same)

text \<open>An instance of C2: the score of \<open>"Ab"\<close> with itself.\<close>

theorem score_bounds_witness:
  "ascii ''Ab'' \<noteq> [] \<and> score lower_ascii (ascii ''Ab'') (ascii ''Ab'') = 1"
proof -
  have ne: "ascii ''Ab'' \<noteq> []" by (simp add: ascii_def)
  with score_bounds [of lower_ascii "ascii ''Ab''" "ascii ''Ab''"] show ?thesis by blast
qed

section \<open>Properties of the retriever\<close>

lemma and_then_Inr:
  "and_then x f = Inr r \<longleftrightarrow> (\<exists>v. x = Inr v \<and> f v = Inr r)"
  by (cases x) (simp_all add: and_then_def)

lemma best_match_loop_score:
  "best_match_loop lower query field_names entries (be, bs) = (be', bs') \<Longrightarrow>
     bs \<le> bs' \<and> (be' \<noteq> be \<or> bs' \<noteq> bs \<longrightarrow> be' \<noteq> None \<and> bs < bs')"
proof (induction entries arbitrary: be bs)
  case Nil
  then show ?case by simp
next
  case (Cons e entries)
  let ?sc = "score lower query (field_text e field_names)"
  show ?case
  proof (cases "?sc > bs")
    case True
    with Cons.prems have "best_match_loop lower query field_names entries (Some e, ?sc) = (be', bs')"
      by (simp add: Let_def)
    from Cons.IH[OF this] True show ?thesis by auto
  next
    case False
    with Cons.prems have "best_match_loop lower query field_names entries (be, bs) = (be', bs')"
      by (simp add: Let_def)
    from Cons.IH[OF this] show ?thesis .
  qed
qed

lemma best_match_cases:
  "best_match lower entries query field_names = (be, bs) \<Longrightarrow>
     (be = None \<and> bs = 0) \<or> (be \<noteq> None \<and> 0 < bs)"
  using best_match_loop_score [of lower query field_names entries None 0 be bs]
  by (auto simp: best_match_def)

lemma run_anomaly_tool_result:
  assumes "run_anomaly_tool lower self tplan = Inr r"
  shows "rr_task_type r = tp_task_type tplan \<and> rr_query r = tp_query tplan \<and>
         ((rr_context r = [] \<and> rr_score r = 0) \<or> (rr_context r \<noteq> [] \<and> 0 < rr_score r))"
proof -
  obtain be bs where bm: "best_match lower (anomaly_entries self) (tp_query tplan)
             [ascii ''symptom'', ascii ''probable_causes''] = (be, bs)"
    by (metis surj_pair)
  from best_match_cases[OF bm] show ?thesis
  proof
    assume "be = None \<and> bs = 0"
    with assms bm show ?thesis by (auto simp: run_anomaly_tool_def empty_result_def)
  next
    assume "be \<noteq> None \<and> 0 < bs"
    with assms bm show ?thesis
      by (auto simp: run_anomaly_tool_def and_then_Inr)
  qed
qed

lemma run_sop_tool_result:
  assumes "run_sop_tool lower self tplan = Inr r"
  shows "rr_task_type r = tp_task_type tplan \<and> rr_query r = tp_query tplan \<and>
         ((rr_context r = [] \<and> rr_score r = 0) \<or> (rr_context r \<noteq> [] \<and> 0 < rr_score r))"
proof -
  obtain be bs where bm: "best_match lower (sop_entries self) (tp_query tplan)
             [ascii ''equipment'', ascii ''issue''] = (be, bs)"
    by (metis surj_pair)
  from best_match_cases[OF bm] show ?thesis
  proof
    assume "be = None \<and> bs = 0"
    with assms bm show ?thesis by (auto simp: run_sop_tool_def empty_result_def)
  next
    assume "be \<noteq> None \<and> 0 < bs"
    with assms bm show ?thesis
      by (auto simp: run_sop_tool_def and_then_Inr)
  qed
qed

lemma run_bom_tool_result:
  assumes "run_bom_tool lower self tplan = Inr r"
  shows "rr_task_type r = tp_task_type tplan \<and> rr_query r = tp_query tplan \<and>
         ((rr_context r = [] \<and> rr_score r = 0) \<or> (rr_context r \<noteq> [] \<and> 0 < rr_score r))"
proof -
  obtain be bs where bm: "best_match lower (bom_entries self) (tp_query tplan)
             [ascii ''asset'', ascii ''issue''] = (be, bs)"
    by (metis surj_pair)
  from best_match_cases[OF bm] show ?thesis
  proof
    assume "be = None \<and> bs = 0"
    with assms bm show ?thesis by (auto simp: run_bom_tool_def empty_result_def)
  next
    assume "be \<noteq> None \<and> 0 < bs"
    with assms bm show ?thesis
      by (auto simp: run_bom_tool_def and_then_Inr)
  qed
qed

lemma execute_result:
  assumes "execute lower self tplan = Inr r"
  shows "rr_task_type r = tp_task_type tplan \<and> rr_query r = tp_query tplan \<and>
         ((rr_context r = [] \<and> rr_score r = 0) \<or> (rr_context r \<noteq> [] \<and> 0 < rr_score r))"
proof -
  have "execute lower self tplan = run_anomaly_tool lower self tplan
      \<or> execute lower self tplan = run_sop_tool lower self tplan
      \<or> execute lower self tplan = run_bom_tool lower self tplan
      \<or> execute lower self tplan =
        Inr \<lparr>rr_task_type = tp_task_type tplan, rr_query = tp_query tplan, rr_context = [],
            rr_source = ascii ''unknown'', rr_score = 0,
            rr_metadata = [ascii ''error'' \<mapsto> ascii ''no tool named '' @ tp_tool_name tplan]\<rparr>"
    by (simp add: execute_def Let_def)
  then consider (a) "run_anomaly_tool lower self tplan = Inr r"
    | (s) "run_sop_tool lower self tplan = Inr r"
    | (b) "run_bom_tool lower self tplan = Inr r"
    | (u) "r = \<lparr>rr_task_type = tp_task_type tplan, rr_query = tp_query tplan, rr_context = [],
            rr_source = ascii ''unknown'', rr_score = 0,
            rr_metadata = [ascii ''error'' \<mapsto> ascii ''no tool named '' @ tp_tool_name tplan]\<rparr>"
    using assms by auto
  then show ?thesis
  proof cases
    case a then show ?thesis by (rule run_anomaly_tool_result)
  next
    case s then show ?thesis by (rule run_sop_tool_result)
  next
    case b then show ?thesis by (rule run_bom_tool_result)
  next
    case u then show ?thesis by simp
  qed
qed

lemma example_field_text:
  "field_text [ascii ''alert_id'' \<mapsto> aid, ascii ''symptom'' \<mapsto> ascii ''ab'',
           ascii ''probable_causes'' \<mapsto> ascii ''cd'', ascii ''recommended_actions'' \<mapsto> ascii ''ef'']
         [ascii ''symptom'', ascii ''probable_causes''] = ascii ''ab cd''"
  by (simp add: field_text_def ascii_def)

lemma example_score: "score lower_ascii (ascii ''AB cx'') (ascii ''ab cd'') = 4 / 5"
  by code_simp

text \<open>
  C3: a result returned by \<open>execute\<close> has an empty context exactly when its score is
  zero; either both hold (no match, empty corpus, unknown tool), or a record matched,
  the context is non-empty and the score is strictly positive.
\<close>

theorem execute_context_score:
  "execute lower self tplan = Inr r \<Longrightarrow>
     (rr_context r = [] \<longleftrightarrow> rr_score r = 0) \<and>
     ((rr_context r = [] \<and> rr_score r = 0) \<or> (rr_context r \<noteq> [] \<and> 0 < rr_score r))"
  using execute_result [of lower self tplan r] by auto

text \<open>An instance of C3 where a record matches with score \<open>0.8\<close>.\<close>

theorem execute_context_score_witness:
  "(case execute lower_ascii
      \<lparr>anomaly_entries =
         [[ascii ''alert_id'' \<mapsto> ascii ''A1'', ascii ''symptom'' \<mapsto> ascii ''ab'',
           ascii ''probable_causes'' \<mapsto> ascii ''cd'', ascii ''recommended_actions'' \<mapsto> ascii ''ef'']],
       sop_entries = [], bom_entries = []\<rparr>
      \<lparr>tp_task_type = ascii ''anomaly_diagnosis'', tp_tool_name = ascii ''anomaly_diagnosis'',
       tp_query = ascii ''AB cx'', tp_metadata = Map.empty\<rparr> of
     Inl e \<Rightarrow> False
   | Inr r \<Rightarrow> rr_context r \<noteq> [] \<and> rr_score r = 4 / 5)"
proof -
  let ?self = "\<lparr>anomaly_entries =
         [[ascii ''alert_id'' \<mapsto> ascii ''A1'', ascii ''symptom'' \<mapsto> ascii ''ab'',
           ascii ''probable_causes'' \<mapsto> ascii ''cd'', ascii ''recommended_actions'' \<mapsto> ascii ''ef'']],
       sop_entries = [], bom_entries = []\<rparr>"
  let ?plan = "\<lparr>tp_task_type = ascii ''anomaly_diagnosis'', tp_tool_name = ascii ''anomaly_diagnosis'',
       tp_query = ascii ''AB cx'', tp_metadata = Map.empty\<rparr>"
  obtain r where r: "execute lower_ascii ?self ?plan = Inr r" "rr_score r = 4 / 5"
    by (simp add: execute_def run_anomaly_tool_def best_match_def example_field_text
        example_score Let_def getitem_def and_then_def) (simp add: ascii_def)
  from execute_context_score [OF r(1)] r show ?thesis by simp
qed

text \<open>
  C10: a result returned by \<open>execute\<close> carries the plan's \<open>task_type\<close> and
  \<open>query\<close> unchanged, in every branch.
\<close>

theorem execute_carries_plan:
  "execute lower self tplan = Inr r \<Longrightarrow>
     rr_task_type r = tp_task_type tplan \<and> rr_query r = tp_query tplan"
  using execute_result [of lower self tplan r] by simp

text \<open>An instance of C10 in the branch where a record matches.\<close>

theorem execute_carries_plan_witness:
  "(case execute lower_ascii
      \<lparr>anomaly_entries =
         [[ascii ''alert_id'' \<mapsto> ascii ''A1'', ascii ''symptom'' \<mapsto> ascii ''ab'',
           ascii ''probable_causes'' \<mapsto> ascii ''cd'', ascii ''recommended_actions'' \<mapsto> ascii ''ef'']],
       sop_entries = [], bom_entries = []\<rparr>
      \<lparr>tp_task_type = ascii ''anomaly_diagnosis'', tp_tool_name = ascii ''anomaly_diagnosis'',
       tp_query = ascii ''AB cx'', tp_metadata = Map.empty\<rparr> of
     Inl e \<Rightarrow> False
   | Inr r \<Rightarrow> rr_task_type r = ascii ''anomaly_diagnosis'' \<and> rr_query r = ascii ''AB cx'')"
proof -
  let ?self = "\<lparr>anomaly_entries =
         [[ascii ''alert_id'' \<mapsto> ascii ''A1'', ascii ''symptom'' \<mapsto> ascii ''ab'',
           ascii ''probable_causes'' \<mapsto> ascii ''cd'', ascii ''recommended_actions'' \<mapsto> ascii ''ef'']],
       sop_entries = [], bom_entries = []\<rparr>"
  let ?plan = "\<lparr>tp_task_type = ascii ''anomaly_diagnosis'', tp_tool_name = ascii ''anomaly_diagnosis'',
       tp_query = ascii ''AB cx'', tp_metadata = Map.empty\<rparr>"
  obtain r where r: "execute lower_ascii ?self ?plan = Inr r"
    by (simp add: execute_def run_anomaly_tool_def best_match_def example_field_text example_score
        Let_def getitem_def and_then_def) (simp add: ascii_def)
  from execute_carries_plan [OF r] r show ?thesis by simp
qed

text \<open>
  C6, as stated, fails: for the unknown tool \<open>translate\<close> the source of the result
  is \<open>"unknown"\<close>, not the empty string.
\<close>

theorem execute_unknown_tool_counterexample:
  "execute lower_ascii \<lparr>anomaly_entries = [], sop_entries = [], bom_entries = []\<rparr>
     \<lparr>tp_task_type = ascii ''translate'', tp_tool_name = ascii ''translate'',
      tp_query = ascii ''q'', tp_metadata = Map.empty\<rparr>
   = Inr \<lparr>rr_task_type = ascii ''translate'', rr_query = ascii ''q'', rr_context = [],
          rr_source = ascii ''unknown'', rr_score = 0,
          rr_metadata = [ascii ''error'' \<mapsto> ascii ''no tool named translate'']\<rparr>
   \<and> ascii ''unknown'' \<noteq> []"
  by (simp add: execute_def Let_def ascii_def)

text \<open>
  C6 (amended): for a plan whose tool is none of the three mapped tools, \<open>execute\<close>
  returns, without raising, the result with empty context, the source \<open>"unknown"\<close>,
  score 0 and the metadata \<open>error\<close> naming the tool.
\<close>

theorem execute_unknown_tool:
  "tp_tool_name tplan \<noteq> ascii ''anomaly_diagnosis'' \<Longrightarrow>
   tp_tool_name tplan \<noteq> ascii ''sop_lookup'' \<Longrightarrow>
   tp_tool_name tplan \<noteq> ascii ''workorder_recommendation'' \<Longrightarrow>
     execute lower self tplan =
       Inr \<lparr>rr_task_type = tp_task_type tplan, rr_query = tp_query tplan, rr_context = [],
            rr_source = ascii ''unknown'', rr_score = 0,
            rr_metadata = [ascii ''error'' \<mapsto> ascii ''no tool named '' @ tp_tool_name tplan]\<rparr>"
  by (simp add: execute_def)

text \<open>An instance of C6 (amended) for the tool \<open>translate\<close>.\<close>

theorem execute_unknown_tool_witness:
  "execute lower_ascii \<lparr>anomaly_entries = [], sop_entries = [], bom_entries = []\<rparr>
     \<lparr>tp_task_type = ascii ''translate'', tp_tool_name = ascii ''translate'',
      tp_query = ascii ''q'', tp_metadata = Map.empty\<rparr>
   = Inr \<lparr>rr_task_type = ascii ''translate'', rr_query = ascii ''q'', rr_context = [],
          rr_source = ascii ''unknown'', rr_score = 0,
          rr_metadata = [ascii ''error'' \<mapsto> ascii ''no tool named translate'']\<rparr>"
proof -
  let ?plan = "\<lparr>tp_task_type = ascii ''translate'', tp_tool_name = ascii ''translate'',
      tp_query = ascii ''q'', tp_metadata = Map.empty\<rparr>"
  have "tp_tool_name ?plan \<noteq> ascii ''anomaly_diagnosis''" "tp_tool_name ?plan \<noteq> ascii ''sop_lookup''"
    "tp_tool_name ?plan \<noteq> ascii ''workorder_recommendation''"
    by (simp_all add: ascii_def)
  from execute_unknown_tool [OF this] show ?thesis by (simp add: ascii_def)
qed


lemma best_match_loop_select:
  assumes "best_match_loop lower query field_names entries (be, bs) = (be', bs')"
  shows "(\<forall>e\<in>set entries. score lower query (field_text e field_names) \<le> bs') \<and>
         ((be' = be \<and> bs' = bs) \<or>
          (\<exists>p<length entries. be' = Some (entries ! p) \<and>
              bs' = score lower query (field_text (entries ! p) field_names) \<and> bs < bs' \<and>
              (\<forall>i<p. score lower query (field_text (entries ! i) field_names) < bs')))"
  using assms
proof (induction entries arbitrary: be bs)
  case Nil
  then show ?case by simp
next
  case (Cons e entries)
  let ?sc = "\<lambda>x. score lower query (field_text x field_names)"
  show ?case
  proof (cases "?sc e > bs")
    case True
    with Cons.prems have rec: "best_match_loop lower query field_names entries (Some e, ?sc e) = (be', bs')"
      by (simp add: Let_def)
    from Cons.IH[OF rec] have all: "\<forall>x\<in>set entries. ?sc x \<le> bs'"
      and alt: "(be' = Some e \<and> bs' = ?sc e) \<or>
          (\<exists>p<length entries. be' = Some (entries ! p) \<and> bs' = ?sc (entries ! p) \<and> ?sc e < bs' \<and>
              (\<forall>i<p. ?sc (entries ! i) < bs'))"
      by auto
    from best_match_loop_score[OF rec] have ge: "?sc e \<le> bs'" by simp
    from alt have "\<exists>p<length (e # entries). be' = Some ((e # entries) ! p) \<and>
              bs' = ?sc ((e # entries) ! p) \<and> bs < bs' \<and>
              (\<forall>i<p. ?sc ((e # entries) ! i) < bs')"
    proof
      assume "be' = Some e \<and> bs' = ?sc e"
      with True show ?thesis by (intro exI[of _ 0]) simp
    next
      assume "\<exists>p<length entries. be' = Some (entries ! p) \<and> bs' = ?sc (entries ! p) \<and> ?sc e < bs' \<and>
              (\<forall>i<p. ?sc (entries ! i) < bs')"
      then obtain p where p: "p < length entries" "be' = Some (entries ! p)"
        "bs' = ?sc (entries ! p)" "?sc e < bs'" "\<forall>i<p. ?sc (entries ! i) < bs'"
        by blast
      have "\<forall>i<Suc p. ?sc ((e # entries) ! i) < bs'"
        using p(4,5) by (auto simp: less_Suc_eq_0_disj)
      with p True show ?thesis by (intro exI[of _ "Suc p"]) auto
    qed
    with all ge show ?thesis by simp
  next
    case False
    with Cons.prems have rec: "best_match_loop lower query field_names entries (be, bs) = (be', bs')"
      by (simp add: Let_def)
    from Cons.IH[OF rec] have all: "\<forall>x\<in>set entries. ?sc x \<le> bs'"
      and alt: "(be' = be \<and> bs' = bs) \<or>
          (\<exists>p<length entries. be' = Some (entries ! p) \<and> bs' = ?sc (entries ! p) \<and> bs < bs' \<and>
              (\<forall>i<p. ?sc (entries ! i) < bs'))"
      by auto
    from best_match_loop_score[OF rec] have ge: "bs \<le> bs'" by simp
    from alt have "(be' = be \<and> bs' = bs) \<or> (\<exists>p<length (e # entries). be' = Some ((e # entries) ! p) \<and>
              bs' = ?sc ((e # entries) ! p) \<and> bs < bs' \<and>
              (\<forall>i<p. ?sc ((e # entries) ! i) < bs'))"
    proof
      assume "be' = be \<and> bs' = bs"
      then show ?thesis by simp
    next
      assume "\<exists>p<length entries. be' = Some (entries ! p) \<and> bs' = ?sc (entries ! p) \<and> bs < bs' \<and>
              (\<forall>i<p. ?sc (entries ! i) < bs')"
      then obtain p where p: "p < length entries" "be' = Some (entries ! p)"
        "bs' = ?sc (entries ! p)" "bs < bs'" "\<forall>i<p. ?sc (entries ! i) < bs'"
        by blast
      have "\<forall>i<Suc p. ?sc ((e # entries) ! i) < bs'"
        using p(4,5) False by (auto simp: less_Suc_eq_0_disj)
      with p have "\<exists>p<length (e # entries). be' = Some ((e # entries) ! p) \<and>
              bs' = ?sc ((e # entries) ! p) \<and> bs < bs' \<and>
              (\<forall>i<p. ?sc ((e # entries) ! i) < bs')"
        by (intro exI[of _ "Suc p"]) auto
      then show ?thesis ..
    qed
    with all ge False show ?thesis by auto
  qed
qed



lemma best_match_selected:
  assumes a: "best_match lower entries query field_names = (best_entry, best_score)"
  shows "(\<forall>x\<in>set entries. score lower query (field_text x field_names) \<le> best_score) \<and>
     (case best_entry of
        None \<Rightarrow> best_score = 0
      | Some b \<Rightarrow>
          (\<exists>p<length entries. b = entries ! p \<and>
             best_score = score lower query (field_text b field_names) \<and> 0 < best_score \<and>
             (\<forall>i<p. score lower query (field_text (entries ! i) field_names) < best_score) \<and>
             (\<forall>i<p. field_text (entries ! i) field_names \<noteq> field_text b field_names)))"
proof -
  from a have l: "best_match_loop lower query field_names entries (None, 0) = (best_entry, best_score)"
    by (simp add: best_match_def)
  from best_match_loop_select[OF l]
  have all: "\<forall>x\<in>set entries. score lower query (field_text x field_names) \<le> best_score"
    and alt: "(best_entry = None \<and> best_score = 0) \<or>
          (\<exists>p<length entries. best_entry = Some (entries ! p) \<and>
              best_score = score lower query (field_text (entries ! p) field_names) \<and> 0 < best_score \<and>
              (\<forall>i<p. score lower query (field_text (entries ! i) field_names) < best_score))"
    by auto
  from alt have "case best_entry of
        None \<Rightarrow> best_score = 0
      | Some b \<Rightarrow>
          (\<exists>p<length entries. b = entries ! p \<and>
             best_score = score lower query (field_text b field_names) \<and> 0 < best_score \<and>
             (\<forall>i<p. score lower query (field_text (entries ! i) field_names) < best_score) \<and>
             (\<forall>i<p. field_text (entries ! i) field_names \<noteq> field_text b field_names))"
  proof
    assume "best_entry = None \<and> best_score = 0"
    then show ?thesis by simp
  next
    assume "\<exists>p<length entries. best_entry = Some (entries ! p) \<and>
              best_score = score lower query (field_text (entries ! p) field_names) \<and> 0 < best_score \<and>
              (\<forall>i<p. score lower query (field_text (entries ! i) field_names) < best_score)"
    then obtain p where p: "p < length entries" "best_entry = Some (entries ! p)"
      "best_score = score lower query (field_text (entries ! p) field_names)" "0 < best_score"
      "\<forall>i<p. score lower query (field_text (entries ! i) field_names) < best_score"
      by blast
    have "\<forall>i<p. field_text (entries ! i) field_names \<noteq> field_text (entries ! p) field_names"
    proof (intro allI impI notI)
      fix i assume "i < p" and eq: "field_text (entries ! i) field_names = field_text (entries ! p) field_names"
      with p(5) have "score lower query (field_text (entries ! i) field_names) < best_score" by blast
      with eq p(3) show False by simp
    qed
    with p show ?thesis by auto
  qed
  with all show ?thesis by simp
qed

text \<open>
  When every record has the fields its tool reads, \<open>execute\<close> returns a result: the
  only error of the model is the \<open>KeyError\<close> of a record without such a field.
\<close>

lemma best_match_member:
  "best_match lower entries query field_names = (Some b, sc) \<Longrightarrow> b \<in> set entries"
  using best_match_selected [of lower entries query field_names "Some b" sc] by auto

lemma getitem_dom: "key \<in> dom e \<Longrightarrow> \<exists>v. getitem e key = Inr v"
  by (auto simp: getitem_def)

lemma execute_returns:
  assumes "\<forall>e\<in>set (anomaly_entries self).
        {ascii ''alert_id'', ascii ''symptom'', ascii ''probable_causes'',
         ascii ''recommended_actions''} \<subseteq> dom e"
    and "\<forall>e\<in>set (sop_entries self).
        {ascii ''equipment'', ascii ''issue'', ascii ''sop_steps''} \<subseteq> dom e"
    and "\<forall>e\<in>set (bom_entries self).
        {ascii ''asset'', ascii ''issue'', ascii ''work_order'', ascii ''advice''} \<subseteq> dom e"
  shows "\<exists>r. execute lower self tplan = Inr r"
proof -
  have a: "\<exists>r. run_anomaly_tool lower self tplan = Inr r"
  proof -
    obtain be bs where bm: "best_match lower (anomaly_entries self) (tp_query tplan)
        [ascii ''symptom'', ascii ''probable_causes''] = (be, bs)"
      by (metis surj_pair)
    show ?thesis
    proof (cases be)
      case None
      with bm show ?thesis by (simp add: run_anomaly_tool_def)
    next
      case (Some e)
      with bm best_match_member have "e \<in> set (anomaly_entries self)" by blast
      with assms(1) obtain v1 v2 v3 v4 where
        "getitem e (ascii ''alert_id'') = Inr v1" "getitem e (ascii ''symptom'') = Inr v2"
        "getitem e (ascii ''probable_causes'') = Inr v3"
        "getitem e (ascii ''recommended_actions'') = Inr v4"
        by (metis getitem_dom insert_subset)
      with bm Some show ?thesis by (simp add: run_anomaly_tool_def and_then_def)
    qed
  qed
  have s: "\<exists>r. run_sop_tool lower self tplan = Inr r"
  proof -
    obtain be bs where bm: "best_match lower (sop_entries self) (tp_query tplan)
        [ascii ''equipment'', ascii ''issue''] = (be, bs)"
      by (metis surj_pair)
    show ?thesis
    proof (cases be)
      case None
      with bm show ?thesis by (simp add: run_sop_tool_def)
    next
      case (Some e)
      with bm best_match_member have "e \<in> set (sop_entries self)" by blast
      with assms(2) obtain v1 v2 v3 where
        "getitem e (ascii ''equipment'') = Inr v1" "getitem e (ascii ''issue'') = Inr v2"
        "getitem e (ascii ''sop_steps'') = Inr v3"
        by (metis getitem_dom insert_subset)
      with bm Some show ?thesis by (simp add: run_sop_tool_def and_then_def)
    qed
  qed
  have b: "\<exists>r. run_bom_tool lower self tplan = Inr r"
  proof -
    obtain be bs where bm: "best_match lower (bom_entries self) (tp_query tplan)
        [ascii ''asset'', ascii ''issue''] = (be, bs)"
      by (metis surj_pair)
    show ?thesis
    proof (cases be)
      case None
      with bm show ?thesis by (simp add: run_bom_tool_def)
    next
      case (Some e)
      with bm best_match_member have "e \<in> set (bom_entries self)" by blast
      with assms(3) obtain v1 v2 v3 v4 where
        "getitem e (ascii ''asset'') = Inr v1" "getitem e (ascii ''issue'') = Inr v2"
        "getitem e (ascii ''work_order'') = Inr v3" "getitem e (ascii ''advice'') = Inr v4"
        by (metis getitem_dom insert_subset)
      with bm Some show ?thesis by (simp add: run_bom_tool_def and_then_def)
    qed
  qed
  from a s b show ?thesis by (simp add: execute_def Let_def)
qed

text \<open>
  A result of a tool is the no-match result, or it is built from the record at the
  first index of maximal score; scores of returned results lie in \<open>[0,1]\<close>.
\<close>

lemma getitem_Inr: "getitem e key = Inr v \<longleftrightarrow> e key = Some v"
  by (auto simp: getitem_def split: option.splits)

lemma run_anomaly_tool_selected:
  assumes "run_anomaly_tool lower self tplan = Inr r"
  shows
    "(r = empty_result tplan \<and>
      (\<forall>x\<in>set (anomaly_entries self). score lower (tp_query tplan) (field_text x [ascii ''symptom'', ascii ''probable_causes'']) \<le> 0)) \<or>
     (\<exists>p<length (anomaly_entries self). \<exists>alert_id symptom probable_causes recommended_actions.
        (anomaly_entries self ! p) (ascii ''alert_id'') = Some alert_id \<and>
        (anomaly_entries self ! p) (ascii ''symptom'') = Some symptom \<and>
        (anomaly_entries self ! p) (ascii ''probable_causes'') = Some probable_causes \<and>
        (anomaly_entries self ! p) (ascii ''recommended_actions'') = Some recommended_actions \<and>
        r = \<lparr>rr_task_type = tp_task_type tplan, rr_query = tp_query tplan,
             rr_context = [0x544A, 0x8B66, 0x20] @ alert_id @ [0xFF1A] @ symptom
               @ [0xA, 0x53EF, 0x80FD, 0x539F, 0x56E0, 0xFF1A] @ probable_causes
               @ [0xA, 0x63A8, 0x8350, 0x63AA, 0x65BD, 0xFF1A] @ recommended_actions,
             rr_source = ascii ''anomaly_diagnostics.csv#'' @ alert_id,
             rr_score = score lower (tp_query tplan) (field_text (anomaly_entries self ! p) [ascii ''symptom'', ascii ''probable_causes'']),
             rr_metadata = [ascii ''alert_id'' \<mapsto> alert_id]\<rparr> \<and>
        0 < rr_score r \<and>
        (\<forall>x\<in>set (anomaly_entries self). score lower (tp_query tplan) (field_text x [ascii ''symptom'', ascii ''probable_causes'']) \<le> rr_score r) \<and>
        (\<forall>i<p. score lower (tp_query tplan) (field_text (anomaly_entries self ! i) [ascii ''symptom'', ascii ''probable_causes'']) < rr_score r) \<and>
        (\<forall>i<p. field_text (anomaly_entries self ! i) [ascii ''symptom'', ascii ''probable_causes''] \<noteq> field_text (anomaly_entries self ! p) [ascii ''symptom'', ascii ''probable_causes'']))"
proof -
  let ?es = "anomaly_entries self"
  let ?fs = "[ascii ''symptom'', ascii ''probable_causes'']"
  obtain be bs where bm: "best_match lower ?es (tp_query tplan) ?fs = (be, bs)"
    by (metis surj_pair)
  note sel = best_match_selected[OF bm]
  show ?thesis
  proof (cases be)
    case None
    with sel have "\<forall>x\<in>set ?es. score lower (tp_query tplan) (field_text x ?fs) \<le> 0"
      by auto
    moreover have "r = empty_result tplan"
      using assms bm None by (simp add: run_anomaly_tool_def)
    ultimately show ?thesis by blast
  next
    case (Some b)
    with sel obtain p where p: "p < length ?es" "b = ?es ! p"
      "bs = score lower (tp_query tplan) (field_text b ?fs)" "0 < bs"
      "\<forall>i<p. score lower (tp_query tplan) (field_text (?es ! i) ?fs) < bs"
      "\<forall>i<p. field_text (?es ! i) ?fs \<noteq> field_text b ?fs"
      and all: "\<forall>x\<in>set ?es. score lower (tp_query tplan) (field_text x ?fs) \<le> bs"
      by auto
    from assms bm Some obtain v1 v2 v3 v4 where
      g: "b (ascii ''alert_id'') = Some v1" "b (ascii ''symptom'') = Some v2" "b (ascii ''probable_causes'') = Some v3" "b (ascii ''recommended_actions'') = Some v4"
      and r: "r = \<lparr>rr_task_type = tp_task_type tplan, rr_query = tp_query tplan,
                 rr_context = [0x544A, 0x8B66, 0x20] @ v1 @ [0xFF1A] @ v2
                   @ [0xA, 0x53EF, 0x80FD, 0x539F, 0x56E0, 0xFF1A] @ v3
                   @ [0xA, 0x63A8, 0x8350, 0x63AA, 0x65BD, 0xFF1A] @ v4,
                 rr_source = ascii ''anomaly_diagnostics.csv#'' @ v1,
                 rr_score = bs,
                 rr_metadata = [ascii ''alert_id'' \<mapsto> v1]\<rparr>"
      by (auto simp: run_anomaly_tool_def and_then_Inr getitem_Inr)
    have rs: "rr_score r = bs" using r by simp
    show ?thesis
      apply (rule disjI2)
      apply (rule exI[of _ p])
      apply (rule conjI[OF p(1)])
      apply (rule exI[of _ v1], rule exI[of _ v2], rule exI[of _ v3], rule exI[of _ v4])
      using g r p all unfolding rs by simp
  qed
qed

lemma run_sop_tool_selected:
  assumes "run_sop_tool lower self tplan = Inr r"
  shows
    "(r = empty_result tplan \<and>
      (\<forall>x\<in>set (sop_entries self). score lower (tp_query tplan) (field_text x [ascii ''equipment'', ascii ''issue'']) \<le> 0)) \<or>
     (\<exists>p<length (sop_entries self). \<exists>equipment issue sop_steps.
        (sop_entries self ! p) (ascii ''equipment'') = Some equipment \<and>
        (sop_entries self ! p) (ascii ''issue'') = Some issue \<and>
        (sop_entries self ! p) (ascii ''sop_steps'') = Some sop_steps \<and>
        r = \<lparr>rr_task_type = tp_task_type tplan, rr_query = tp_query tplan,
             rr_context = [0x8BBE, 0x5907, 0x20] @ equipment
               @ [0x20, 0x7684, 0x95EE, 0x9898, 0xFF1A] @ issue
               @ [0xA, 0x53, 0x4F, 0x50, 0x20, 0x6B65, 0x9AA4, 0xFF1A] @ sop_steps,
             rr_source = ascii ''sop_lookup.csv#'' @ equipment,
             rr_score = score lower (tp_query tplan) (field_text (sop_entries self ! p) [ascii ''equipment'', ascii ''issue'']),
             rr_metadata = [ascii ''equipment'' \<mapsto> equipment]\<rparr> \<and>
        0 < rr_score r \<and>
        (\<forall>x\<in>set (sop_entries self). score lower (tp_query tplan) (field_text x [ascii ''equipment'', ascii ''issue'']) \<le> rr_score r) \<and>
        (\<forall>i<p. score lower (tp_query tplan) (field_text (sop_entries self ! i) [ascii ''equipment'', ascii ''issue'']) < rr_score r) \<and>
        (\<forall>i<p. field_text (sop_entries self ! i) [ascii ''equipment'', ascii ''issue''] \<noteq> field_text (sop_entries self ! p) [ascii ''equipment'', ascii ''issue'']))"
proof -
  let ?es = "sop_entries self"
  let ?fs = "[ascii ''equipment'', ascii ''issue'']"
  obtain be bs where bm: "best_match lower ?es (tp_query tplan) ?fs = (be, bs)"
    by (metis surj_pair)
  note sel = best_match_selected[OF bm]
  show ?thesis
  proof (cases be)
    case None
    with sel have "\<forall>x\<in>set ?es. score lower (tp_query tplan) (field_text x ?fs) \<le> 0"
      by auto
    moreover have "r = empty_result tplan"
      using assms bm None by (simp add: run_sop_tool_def)
    ultimately show ?thesis by blast
  next
    case (Some b)
    with sel obtain p where p: "p < length ?es" "b = ?es ! p"
      "bs = score lower (tp_query tplan) (field_text b ?fs)" "0 < bs"
      "\<forall>i<p. score lower (tp_query tplan) (field_text (?es ! i) ?fs) < bs"
      "\<forall>i<p. field_text (?es ! i) ?fs \<noteq> field_text b ?fs"
      and all: "\<forall>x\<in>set ?es. score lower (tp_query tplan) (field_text x ?fs) \<le> bs"
      by auto
    from assms bm Some obtain v1 v2 v3 where
      g: "b (ascii ''equipment'') = Some v1" "b (ascii ''issue'') = Some v2" "b (ascii ''sop_steps'') = Some v3"
      and r: "r = \<lparr>rr_task_type = tp_task_type tplan, rr_query = tp_query tplan,
                 rr_context = [0x8BBE, 0x5907, 0x20] @ v1
                   @ [0x20, 0x7684, 0x95EE, 0x9898, 0xFF1A] @ v2
                   @ [0xA, 0x53, 0x4F, 0x50, 0x20, 0x6B65, 0x9AA4, 0xFF1A] @ v3,
                 rr_source = ascii ''sop_lookup.csv#'' @ v1,
                 rr_score = bs,
                 rr_metadata = [ascii ''equipment'' \<mapsto> v1]\<rparr>"
      by (auto simp: run_sop_tool_def and_then_Inr getitem_Inr)
    have rs: "rr_score r = bs" using r by simp
    show ?thesis
      apply (rule disjI2)
      apply (rule exI[of _ p])
      apply (rule conjI[OF p(1)])
      apply (rule exI[of _ v1], rule exI[of _ v2], rule exI[of _ v3])
      using g r p all unfolding rs by simp
  qed
qed

lemma run_bom_tool_selected:
  assumes "run_bom_tool lower self tplan = Inr r"
  shows
    "(r = empty_result tplan \<and>
      (\<forall>x\<in>set (bom_entries self). score lower (tp_query tplan) (field_text x [ascii ''asset'', ascii ''issue'']) \<le> 0)) \<or>
     (\<exists>p<length (bom_entries self). \<exists>asset issue work_order advice.
        (bom_entries self ! p) (ascii ''asset'') = Some asset \<and>
        (bom_entries self ! p) (ascii ''issue'') = Some issue \<and>
        (bom_entries self ! p) (ascii ''work_order'') = Some work_order \<and>
        (bom_entries self ! p) (ascii ''advice'') = Some advice \<and>
        r = \<lparr>rr_task_type = tp_task_type tplan, rr_query = tp_query tplan,
             rr_context = [0x5355, 0x5143, 0x20] @ asset
               @ [0x20, 0x7684, 0x95EE, 0x9898, 0xFF1A] @ issue
               @ [0xA, 0x5EFA, 0x8BAE, 0x5DE5, 0x5355, 0xFF1A] @ work_order
               @ [0xA, 0x6267, 0x884C, 0x5EFA, 0x8BAE, 0xFF1A] @ advice,
             rr_source = ascii ''bom_workorders.txt#'' @ asset,
             rr_score = score lower (tp_query tplan) (field_text (bom_entries self ! p) [ascii ''asset'', ascii ''issue'']),
             rr_metadata = [ascii ''asset'' \<mapsto> asset, ascii ''work_order'' \<mapsto> work_order]\<rparr> \<and>
        0 < rr_score r \<and>
        (\<forall>x\<in>set (bom_entries self). score lower (tp_query tplan) (field_text x [ascii ''asset'', ascii ''issue'']) \<le> rr_score r) \<and>
        (\<forall>i<p. score lower (tp_query tplan) (field_text (bom_entries self ! i) [ascii ''asset'', ascii ''issue'']) < rr_score r) \<and>
        (\<forall>i<p. field_text (bom_entries self ! i) [ascii ''asset'', ascii ''issue''] \<noteq> field_text (bom_entries self ! p) [ascii ''asset'', ascii ''issue'']))"
proof -
  let ?es = "bom_entries self"
  let ?fs = "[ascii ''asset'', ascii ''issue'']"
  obtain be bs where bm: "best_match lower ?es (tp_query tplan) ?fs = (be, bs)"
    by (metis surj_pair)
  note sel = best_match_selected[OF bm]
  show ?thesis
  proof (cases be)
    case None
    with sel have "\<forall>x\<in>set ?es. score lower (tp_query tplan) (field_text x ?fs) \<le> 0"
      by auto
    moreover have "r = empty_result tplan"
      using assms bm None by (simp add: run_bom_tool_def)
    ultimately show ?thesis by blast
  next
    case (Some b)
    with sel obtain p where p: "p < length ?es" "b = ?es ! p"
      "bs = score lower (tp_query tplan) (field_text b ?fs)" "0 < bs"
      "\<forall>i<p. score lower (tp_query tplan) (field_text (?es ! i) ?fs) < bs"
      "\<forall>i<p. field_text (?es ! i) ?fs \<noteq> field_text b ?fs"
      and all: "\<forall>x\<in>set ?es. score lower (tp_query tplan) (field_text x ?fs) \<le> bs"
      by auto
    from assms bm Some obtain v1 v2 v3 v4 where
      g: "b (ascii ''asset'') = Some v1" "b (ascii ''issue'') = Some v2" "b (ascii ''work_order'') = Some v3" "b (ascii ''advice'') = Some v4"
      and r: "r = \<lparr>rr_task_type = tp_task_type tplan, rr_query = tp_query tplan,
                 rr_context = [0x5355, 0x5143, 0x20] @ v1
                   @ [0x20, 0x7684, 0x95EE, 0x9898, 0xFF1A] @ v2
                   @ [0xA, 0x5EFA, 0x8BAE, 0x5DE5, 0x5355, 0xFF1A] @ v3
                   @ [0xA, 0x6267, 0x884C, 0x5EFA, 0x8BAE, 0xFF1A] @ v4,
                 rr_source = ascii ''bom_workorders.txt#'' @ v1,
                 rr_score = bs,
                 rr_metadata = [ascii ''asset'' \<mapsto> v1, ascii ''work_order'' \<mapsto> v3]\<rparr>"
      by (auto simp: run_bom_tool_def and_then_Inr getitem_Inr)
    have rs: "rr_score r = bs" using r by simp
    show ?thesis
      apply (rule disjI2)
      apply (rule exI[of _ p])
      apply (rule conjI[OF p(1)])
      apply (rule exI[of _ v1], rule exI[of _ v2], rule exI[of _ v3], rule exI[of _ v4])
      using g r p all unfolding rs by simp
  qed
qed




lemma score_range: "0 \<le> score lower a b \<and> score lower a b \<le> 1"
  using ratio_bounds [of "lower a" "lower b"] by (simp add: score_def)

lemma execute_score_range:
  assumes "execute lower self tplan = Inr r"
  shows "0 \<le> rr_score r \<and> rr_score r \<le> 1"
proof -
  have "execute lower self tplan = run_anomaly_tool lower self tplan
      \<or> execute lower self tplan = run_sop_tool lower self tplan
      \<or> execute lower self tplan = run_bom_tool lower self tplan
      \<or> execute lower self tplan =
        Inr \<lparr>rr_task_type = tp_task_type tplan, rr_query = tp_query tplan, rr_context = [],
            rr_source = ascii ''unknown'', rr_score = 0,
            rr_metadata = [ascii ''error'' \<mapsto> ascii ''no tool named '' @ tp_tool_name tplan]\<rparr>"
    by (simp add: execute_def Let_def)
  then consider (a) "run_anomaly_tool lower self tplan = Inr r"
    | (s) "run_sop_tool lower self tplan = Inr r"
    | (b) "run_bom_tool lower self tplan = Inr r"
    | (u) "rr_score r = 0"
    using assms by auto
  then show ?thesis
  proof cases
    case a
    from run_anomaly_tool_selected[OF a] show ?thesis
      using score_range by (auto simp: empty_result_def)
  next
    case s
    from run_sop_tool_selected[OF s] show ?thesis
      using score_range by (auto simp: empty_result_def)
  next
    case b
    from run_bom_tool_selected[OF b] show ?thesis
      using score_range by (auto simp: empty_result_def)
  next
    case u
    then show ?thesis by simp
  qed
qed



section \<open>Properties of the solver\<close>

lemma compose_answer_contains: "sublist (rr_context retrieval) (compose_answer task_type retrieval)"
  unfolding compose_answer_def Let_def
  by (simp only: sublist_appendI simp_thms split: if_split)

text \<open>
  C8: for every plan and every retrieval result with a non-empty context, the answer of
  \<open>solve\<close> contains the context as a contiguous substring, whichever of the four
  templates is chosen.
\<close>

theorem solve_answer_contains_context:
  "rr_context retrieval \<noteq> [] \<Longrightarrow>
     sublist (rr_context retrieval) (sr_answer (solve format_2f tplan retrieval))"
  by (simp add: solve_def compose_answer_contains)

text \<open>An instance of C8 with the context \<open>"ctx"\<close>, for every float format.\<close>

theorem solve_answer_contains_context_witness:
  "\<forall>format_2f. sublist (ascii ''ctx'')
     (sr_answer (solve format_2f
        \<lparr>tp_task_type = ascii ''sop_lookup'', tp_tool_name = ascii ''sop_lookup'',
         tp_query = ascii ''q'', tp_metadata = Map.empty\<rparr>
        \<lparr>rr_task_type = ascii ''sop_lookup'', rr_query = ascii ''q'', rr_context = ascii ''ctx'',
         rr_source = ascii ''s'', rr_score = 1, rr_metadata = Map.empty\<rparr>))"
proof
  fix format_2f :: "rat \<Rightarrow> ustr"
  let ?r = "\<lparr>rr_task_type = ascii ''sop_lookup'', rr_query = ascii ''q'', rr_context = ascii ''ctx'',
         rr_source = ascii ''s'', rr_score = 1, rr_metadata = Map.empty\<rparr>"
  have ne: "rr_context ?r \<noteq> []" by (simp add: ascii_def)
  from solve_answer_contains_context [OF ne, of format_2f]
  show "sublist (ascii ''ctx'')
     (sr_answer (solve format_2f
        \<lparr>tp_task_type = ascii ''sop_lookup'', tp_tool_name = ascii ''sop_lookup'',
         tp_query = ascii ''q'', tp_metadata = Map.empty\<rparr> ?r))"
    by simp
qed

text \<open>
  C9: for every plan and every retrieval result with an empty context, \<open>solve\<close>
  returns the fixed refusal answer and an empty references mapping; \<open>solve\<close> is a
  total function, no step of it can raise.
\<close>

theorem solve_refusal:
  "rr_context retrieval = [] \<Longrightarrow>
     sr_answer (solve format_2f tplan retrieval) =
       [0x672A, 0x68C0, 0x7D22, 0x5230, 0x76F8, 0x5173, 0x77E5, 0x8BC6, 0xFF0C,
        0x8BF7, 0x8F6C, 0x4EBA, 0x5DE5, 0x6216, 0x8865, 0x5145, 0x66F4, 0x591A,
        0x4FE1, 0x606F, 0x3002] \<and>
     sr_references (solve format_2f tplan retrieval) = Map.empty"
  by (simp add: solve_def)

text \<open>An instance of C9 with the empty result of the retriever, for every float format.\<close>

theorem solve_refusal_witness:
  "\<forall>format_2f. sr_answer (solve format_2f
        \<lparr>tp_task_type = ascii ''sop_lookup'', tp_tool_name = ascii ''sop_lookup'',
         tp_query = ascii ''q'', tp_metadata = Map.empty\<rparr>
        (empty_result \<lparr>tp_task_type = ascii ''sop_lookup'', tp_tool_name = ascii ''sop_lookup'',
         tp_query = ascii ''q'', tp_metadata = Map.empty\<rparr>)) =
       [0x672A, 0x68C0, 0x7D22, 0x5230, 0x76F8, 0x5173, 0x77E5, 0x8BC6, 0xFF0C,
        0x8BF7, 0x8F6C, 0x4EBA, 0x5DE5, 0x6216, 0x8865, 0x5145, 0x66F4, 0x591A,
        0x4FE1, 0x606F, 0x3002]"
proof
  fix format_2f :: "rat \<Rightarrow> ustr"
  let ?p = "\<lparr>tp_task_type = ascii ''sop_lookup'', tp_tool_name = ascii ''sop_lookup'',
         tp_query = ascii ''q'', tp_metadata = Map.empty\<rparr>"
  have e: "rr_context (empty_result ?p) = []" by (simp add: empty_result_def)
  from solve_refusal [OF e, of format_2f ?p]
  show "sr_answer (solve format_2f ?p (empty_result ?p)) =
       [0x672A, 0x68C0, 0x7D22, 0x5230, 0x76F8, 0x5173, 0x77E5, 0x8BC6, 0xFF0C,
        0x8BF7, 0x8F6C, 0x4EBA, 0x5DE5, 0x6216, 0x8865, 0x5145, 0x66F4, 0x591A,
        0x4FE1, 0x606F, 0x3002]"
    by simp
qed

section \<open>Properties of the verifier\<close>



end
